theory Spec2Isabelle
  imports Main "HOL-Library.Word" "HOL-Library.Sublist"
begin

section \<open>Text and its byte encoding\<close>

text \<open>
  The writer of \<^verbatim>\<open>src/ast/writing/writer.ts\<close> builds source text out of string
  fragments and measures it in bytes. A JavaScript string is the sequence of its
  UTF-16 code units (numbers below \<open>0x10000\<close>), and \<^verbatim>\<open>+=\<close> appends the code units
  of the right-hand string. A character outside the basic plane is two code units, a
  high surrogate followed by a low one, and nothing keeps a string from holding one
  half of such a pair alone.
\<close>

type_synonym codeunit = nat
type_synonym codepoint = nat
type_synonym jsstring = "codeunit list"
type_synonym byte = "8 word"

definition lit :: "string \<Rightarrow> jsstring" where
  \<comment> \<open>an ASCII string literal of the source, as a string of the model\<close>
  "lit s = map of_char s"

definition is_high :: "codeunit \<Rightarrow> bool" where
  "is_high u \<longleftrightarrow> 0xD800 \<le> u \<and> u < 0xDC00"

definition is_low :: "codeunit \<Rightarrow> bool" where
  "is_low u \<longleftrightarrow> 0xDC00 \<le> u \<and> u < 0xE000"

definition scalar :: "codeunit \<Rightarrow> codepoint" where
  \<comment> \<open>a code unit read alone: half a surrogate pair is replaced by U+FFFD\<close>
  "scalar u = (if is_high u \<or> is_low u then 0xFFFD else u)"

text \<open>
  Modelled from the spec: the characters of a string, as an encoder reads them. What
  encodes the text is not among the sources. A high surrogate followed by a low one is
  one character; a surrogate without its partner is read as U+FFFD, as the UTF-8
  encoders of JavaScript do (\<^verbatim>\<open>Buffer.from\<close>, \<^verbatim>\<open>TextEncoder\<close>).
\<close>

fun codepoints :: "jsstring \<Rightarrow> codepoint list" where
  "codepoints [] = []"
| "codepoints [u] = [scalar u]"
| "codepoints (u # v # rest) =
     (if is_high u \<and> is_low v then
        (0x10000 + (u - 0xD800) * 0x400 + (v - 0xDC00)) # codepoints rest
      else scalar u # codepoints (v # rest))"

text \<open>
  Modelled from the spec: the bytes of one character. The spec speaks of the byte units
  of a variable-byte encoding without naming it. The model takes UTF-8, the encoding of
  Solidity sources, in which a character takes one to four bytes.
\<close>

definition utf8 :: "codepoint \<Rightarrow> byte list" where
  "utf8 c =
     (if c < 0x80 then [of_nat c]
      else if c < 0x800 then
        [of_nat (0xC0 + c div 0x40), of_nat (0x80 + c mod 0x40)]
      else if c < 0x10000 then
        [of_nat (0xE0 + c div 0x1000), of_nat (0x80 + (c div 0x40) mod 0x40),
         of_nat (0x80 + c mod 0x40)]
      else
        [of_nat (0xF0 + c div 0x40000), of_nat (0x80 + (c div 0x1000) mod 0x40),
         of_nat (0x80 + (c div 0x40) mod 0x40), of_nat (0x80 + c mod 0x40)])"

text \<open>
  Modelled from the spec: the bytes of a text are the bytes of its characters, in
  order.
\<close>

definition encode :: "jsstring \<Rightarrow> byte list" where
  "encode str = concat (map utf8 (codepoints str))"

text \<open>
  Modelled from the spec: \<^verbatim>\<open>strByteLen\<close> is imported from \<^verbatim>\<open>../../misc\<close>, which is
  not among the sources. The spec describes it as the boundary function that, given a
  text, returns its length in the encoding's byte units (not its character count).
\<close>

definition strByteLen :: "jsstring \<Rightarrow> nat" where
  "strByteLen str = length (encode str)"



section \<open>Errors and \<^verbatim>\<open>JSON.stringify\<close>\<close>

text \<open>
  Both \<^verbatim>\<open>throw new Error(...)\<close> of the writer raise the class \<^verbatim>\<open>Error\<close>, told apart
  by their message only. \<^verbatim>\<open>JSON.stringify\<close> throws a \<^verbatim>\<open>TypeError\<close>, whose message is
  the engine's and is not modelled. \<open>Thrown\<close> stands for anything else that code
  outside \<^verbatim>\<open>writer.ts\<close> may throw.
\<close>

datatype error = Error jsstring | TypeError | Thrown jsstring

text \<open>
  A value as \<^verbatim>\<open>JSON.stringify\<close> sees it: plain data, where an object is the list of
  its own enumerable properties in the order of enumeration. \<open>JNumber\<close> carries the
  text that stands for the number in JSON. \<open>JSkipped\<close> is \<^verbatim>\<open>undefined\<close>, a function
  or a symbol. \<open>JBigInt\<close> is a BigInt and \<open>JCircular\<close> a reference to an object that
  encloses it: on either \<^verbatim>\<open>JSON.stringify\<close> throws. Values with a \<^verbatim>\<open>toJSON\<close> method
  or with getters are not covered.
\<close>

datatype jsdata =
    JNull
  | JBool bool
  | JNumber jsstring
  | JString jsstring
  | JArray "jsdata list"
  | JObject "(jsstring \<times> jsdata) list"
  | JSkipped
  | JBigInt
  | JCircular

definition hex_digit :: "nat \<Rightarrow> codeunit" where
  "hex_digit d = (if d < 10 then 0x30 + d else 0x61 + (d - 10))"

definition unicode_escape :: "codeunit \<Rightarrow> jsstring" where
  \<comment> \<open>\<^verbatim>\<open>\uXXXX\<close> with lower-case digits\<close>
  "unicode_escape u =
     [0x5C, 0x75, hex_digit (u div 0x1000 mod 0x10), hex_digit (u div 0x100 mod 0x10),
      hex_digit (u div 0x10 mod 0x10), hex_digit (u mod 0x10)]"

definition escape_unit :: "codeunit \<Rightarrow> jsstring" where
  \<comment> \<open>one code unit that is not part of a surrogate pair, inside a JSON string\<close>
  "escape_unit u =
     (if u = 0x08 then [0x5C, 0x62]
      else if u = 0x09 then [0x5C, 0x74]
      else if u = 0x0A then [0x5C, 0x6E]
      else if u = 0x0C then [0x5C, 0x66]
      else if u = 0x0D then [0x5C, 0x72]
      else if u = 0x22 then [0x5C, 0x22]
      else if u = 0x5C then [0x5C, 0x5C]
      else if u < 0x20 \<or> is_high u \<or> is_low u then unicode_escape u
      else [u])"

fun escape_units :: "jsstring \<Rightarrow> jsstring" where
  "escape_units [] = []"
| "escape_units [u] = escape_unit u"
| "escape_units (u # v # rest) =
     (if is_high u \<and> is_low v then u # v # escape_units rest
      else escape_unit u @ escape_units (v # rest))"

definition QuoteJSONString :: "jsstring \<Rightarrow> jsstring" where
  "QuoteJSONString s = [0x22] @ escape_units s @ [0x22]"

fun join :: "jsstring \<Rightarrow> jsstring list \<Rightarrow> jsstring" where
  "join sep [] = []"
| "join sep [x] = x"
| "join sep (x # y # rest) = x @ sep @ join sep (y # rest)"

fun collect :: "(error + 'a) list \<Rightarrow> error + 'a list" where
  \<comment> \<open>the results in order, or the first exception\<close>
  "collect [] = Inr []"
| "collect (Inl e # rest) = Inl e"
| "collect (Inr x # rest) = (case collect rest of Inl e \<Rightarrow> Inl e | Inr xs \<Rightarrow> Inr (x # xs))"

definition gap :: jsstring where
  \<comment> \<open>the third argument \<^verbatim>\<open>4\<close>: four spaces\<close>
  "gap = [0x20, 0x20, 0x20, 0x20]"

definition member :: "jsstring \<times> jsstring option \<Rightarrow> jsstring list" where
  \<comment> \<open>a property of an object: left out when its value serialises to \<^verbatim>\<open>undefined\<close>\<close>
  "member kv = (case snd kv of None \<Rightarrow> [] | Some s \<Rightarrow> [QuoteJSONString (fst kv) @ lit '': '' @ s])"

definition item :: "jsstring option \<Rightarrow> jsstring" where
  \<comment> \<open>an element of an array: \<^verbatim>\<open>null\<close> when it serialises to \<^verbatim>\<open>undefined\<close>\<close>
  "item r = (case r of None \<Rightarrow> lit ''null'' | Some s \<Rightarrow> s)"

definition wrap :: "jsstring \<Rightarrow> jsstring \<Rightarrow> jsstring \<Rightarrow> jsstring list \<Rightarrow> jsstring" where
  \<comment> \<open>the parts of an object or an array between its brackets, one to a line\<close>
  "wrap opening closing indent parts =
     (if parts = [] then opening @ closing
      else opening @ [0x0A] @ indent @ gap
           @ join ([0x2C, 0x0A] @ indent @ gap) parts
           @ [0x0A] @ indent @ closing)"

text \<open>
  \<^verbatim>\<open>SerializeJSONProperty\<close> at the indentation \<open>indent\<close>: the text, \<open>None\<close> for
  \<^verbatim>\<open>undefined\<close>, or the exception.
\<close>

fun serialize :: "jsstring \<Rightarrow> jsdata \<Rightarrow> error + jsstring option" where
  "serialize indent JNull = Inr (Some (lit ''null''))"
| "serialize indent (JBool b) = Inr (Some (if b then lit ''true'' else lit ''false''))"
| "serialize indent (JNumber s) = Inr (Some s)"
| "serialize indent (JString s) = Inr (Some (QuoteJSONString s))"
| "serialize indent (JArray elements) =
     (case collect (map (serialize (indent @ gap)) elements) of
        Inl e \<Rightarrow> Inl e
      | Inr rs \<Rightarrow> Inr (Some (wrap [0x5B] [0x5D] indent (map item rs))))"
| "serialize indent (JObject properties) =
     (case collect (map (\<lambda>kv. serialize (indent @ gap) (snd kv)) properties) of
        Inl e \<Rightarrow> Inl e
      | Inr rs \<Rightarrow>
          Inr (Some (wrap [0x7B] [0x7D] indent
                      (concat (map member (zip (map fst properties) rs))))))"
| "serialize indent JSkipped = Inr None"
| "serialize indent JBigInt = Inl TypeError"
| "serialize indent JCircular = Inl TypeError"

definition JSON_stringify :: "jsdata \<Rightarrow> error + jsstring option" where
  \<comment> \<open>\<^verbatim>\<open>JSON.stringify(value, undefined, 4)\<close>\<close>
  "JSON_stringify v = serialize [] v"

definition appended :: "jsstring option \<Rightarrow> jsstring" where
  \<comment> \<open>what \<^verbatim>\<open>"..." + data\<close> appends: the text \<^verbatim>\<open>undefined\<close> for \<^verbatim>\<open>undefined\<close>\<close>
  "appended r = (case r of None \<Rightarrow> lit ''undefined'' | Some s \<Rightarrow> s)"


section \<open>Nodes, descriptions and the source map\<close>

text \<open>
  The class \<^verbatim>\<open>ASTNode\<close> lives in \<^verbatim>\<open>../ast_node\<close>. The writer uses a node as a map
  key (object identity), reads its \<^verbatim>\<open>constructor\<close> (the key of the writer registry)
  and calls \<^verbatim>\<open>print()\<close> for an error message. Types are erased at run time, and
  \<^verbatim>\<open>desc\<close> itself asks whether its argument is an instance of \<^verbatim>\<open>ASTNode\<close>, so the
  record stands for the value found where the types say \<^verbatim>\<open>ASTNode\<close>, and keeps
  what the writer reads of it: \<open>ref\<close> is the identity of the object, \<open>ctor\<close> its
  \<^verbatim>\<open>constructor\<close>, \<open>isASTNode\<close> the outcome of \<^verbatim>\<open>arg instanceof ASTNode\<close>,
  \<open>printed\<close> the outcome of the call \<^verbatim>\<open>arg.print()\<close> (code that is not among the
  sources: the text it returns, or what it throws) and \<open>data\<close> the value as
  \<^verbatim>\<open>JSON.stringify\<close> sees it.
\<close>

record ASTNode =
  ref :: nat
  ctor :: string
  isASTNode :: bool
  printed :: "error + jsstring"
  data :: jsdata

text \<open>
  \<^verbatim>\<open>SrcDesc ::= (string | [ASTNode, SrcDesc])*\<close>
\<close>

datatype SrcElem = Text jsstring | Assoc ASTNode "SrcElem list"

type_synonym SrcDesc = "SrcElem list"

text \<open>\<^verbatim>\<open>SrcRangeMap = Map<ASTNode, [number, number]>\<close>: node to (start, length).\<close>

type_synonym SrcRangeMap = "ASTNode \<rightharpoonup> nat \<times> nat"


section \<open>Flattening: \<^verbatim>\<open>descToSourceString\<close>\<close>

text \<open>
  The closure \<^verbatim>\<open>helper\<close> mutates the local variables \<^verbatim>\<open>source\<close> and \<^verbatim>\<open>size\<close>
  and the map it was given. The three together are the state it passes along.
\<close>

record flat_state =
  source :: jsstring
  size' :: nat
  sourceMap :: SrcRangeMap

text \<open>
  \<open>helper\<close> is the \<^verbatim>\<open>for\<close> loop over \<^verbatim>\<open>current\<close>; \<open>helper_elem\<close> is its body
  for one element. The subtraction \<^verbatim>\<open>size - start\<close> never truncates: the size only
  grows (lemma \<open>helper_size_mono\<close> below).
\<close>

fun helper :: "SrcDesc \<Rightarrow> flat_state \<Rightarrow> flat_state"
  and helper_elem :: "SrcElem \<Rightarrow> flat_state \<Rightarrow> flat_state" where
  "helper [] st = st"
| "helper (element # rest) st = helper rest (helper_elem element st)"
| "helper_elem (Text element) st =
     st\<lparr>source := source st @ element, size' := size' st + strByteLen element\<rparr>"
| "helper_elem (Assoc node nodeDesc) st =
     (let start = size' st;
          st' = helper nodeDesc st;
          length' = size' st' - start
      in st'\<lparr>sourceMap := (sourceMap st')(node \<mapsto> (start, length'))\<rparr>)"

definition initial :: "SrcRangeMap \<Rightarrow> flat_state" where
  \<comment> \<open>\<^verbatim>\<open>let source = ""; let size = 0;\<close> and the map the caller passed\<close>
  "initial sourceMap0 = \<lparr>source = [], size' = 0, sourceMap = sourceMap0\<rparr>"

definition descToSourceString :: "SrcDesc \<Rightarrow> SrcRangeMap \<Rightarrow> jsstring \<times> SrcRangeMap" where
  \<comment> \<open>returns the text, and the map as the call leaves it\<close>
  "descToSourceString desc sourceMap0 =
     (let st = helper desc (initial sourceMap0)
      in (source st, sourceMap st))"


section \<open>Flattening among other objects: the runs of \<^verbatim>\<open>descToSourceString\<close>\<close>

text \<open>
  A \<^verbatim>\<open>Map\<close> is an object: the caller passes a reference, and what a call leaves in
  it is there for whatever runs next. The heap holds the \<^verbatim>\<open>Map\<close> objects there are,
  by address. The relation below is the execution of the code, statement by
  statement, on a state made of the two locals and the heap; \<open>a\<close> is the address of
  the map the call was given. Nothing in it says that the outcome is determined, nor
  that there is one.
\<close>

type_synonym heap = "nat \<rightharpoonup> SrcRangeMap"

inductive helper_run :: "nat \<Rightarrow> SrcDesc \<Rightarrow> jsstring \<times> nat \<times> heap \<Rightarrow> jsstring \<times> nat \<times> heap \<Rightarrow> bool"
  for a :: nat where
  finished: "helper_run a [] s s"
| fragment:
    "helper_run a rest (src @ element, sz + strByteLen element, h) s' \<Longrightarrow>
     helper_run a (Text element # rest) (src, sz, h) s'"
| entry:
    "helper_run a nodeDesc (src, start, h) (src1, sz1, h1) \<Longrightarrow>
     h1 a = Some m \<Longrightarrow>
     helper_run a rest (src1, sz1, h1(a \<mapsto> m(node \<mapsto> (start, sz1 - start)))) s' \<Longrightarrow>
     helper_run a (Assoc node nodeDesc # rest) (src, start, h) s'"

inductive descToSourceString_run :: "heap \<Rightarrow> SrcDesc \<Rightarrow> nat \<Rightarrow> jsstring \<times> heap \<Rightarrow> bool" where
  call:
    "helper_run a desc ([], 0, h) (src, sz, h') \<Longrightarrow>
     descToSourceString_run h desc a (src, h')"


section \<open>Building descriptions: \<^verbatim>\<open>desc\<close>, \<^verbatim>\<open>writeWhole\<close>, \<^verbatim>\<open>write\<close>\<close>

text \<open>
  The concrete writers (one class per node type) are not part of \<^verbatim>\<open>writer.ts\<close>. A call
  \<^verbatim>\<open>writeInner(node, writer)\<close> of one of them is modelled by its outcome for the
  engine at hand: the description it returns, or the exception that leaves it (a
  writer calls \<^verbatim>\<open>writer.desc\<close> for the children of the node, which may throw).
  A subclass inherits \<^verbatim>\<open>writeWhole\<close> or overrides it.
\<close>

record ASTNodeWriter =
  writeInner :: "ASTNode \<Rightarrow> error + SrcDesc"
  writeWholeOverride :: "(ASTNode \<Rightarrow> error + SrcDesc) option"

definition writeWhole :: "ASTNodeWriter \<Rightarrow> ASTNode \<Rightarrow> error + SrcDesc" where
  "writeWhole this node =
     (case writeWholeOverride this of
        Some override \<Rightarrow> override node
      | None \<Rightarrow>
          (case writeInner this node of
             Inl e \<Rightarrow> Inl e
           | Inr inner \<Rightarrow> Inr [Assoc node inner]))"

text \<open>
  \<^verbatim>\<open>ASTWriter\<close>: the registry \<^verbatim>\<open>mapping\<close>, keyed by the constructor of the node.
  The fields \<^verbatim>\<open>formatter\<close> and \<^verbatim>\<open>targetCompilerVersion\<close> are only handed on to the
  writers; the engine never reads them.
\<close>

record ASTWriter =
  mapping :: "string \<rightharpoonup> ASTNodeWriter"
  targetCompilerVersion :: jsstring

text \<open>
  What \<^verbatim>\<open>desc\<close> can be handed at run time: \<^verbatim>\<open>null\<close>, \<^verbatim>\<open>undefined\<close>, a string, or
  some other value: an \<^verbatim>\<open>ASTNode\<close> or, against the declared type \<^verbatim>\<open>DescArgs\<close>,
  anything else.
\<close>

datatype DescArg = Null | Undefined | Str jsstring | Obj ASTNode

text \<open>
  The loop of \<^verbatim>\<open>desc\<close> over its arguments, with the array \<^verbatim>\<open>result\<close> built so far.
  The message of an error is computed before the error is thrown, so what
  \<^verbatim>\<open>arg.print()\<close> or \<^verbatim>\<open>JSON.stringify\<close> throws is thrown in its place.
\<close>

fun desc_loop :: "ASTWriter \<Rightarrow> DescArg list \<Rightarrow> SrcDesc \<Rightarrow> error + SrcDesc" where
  "desc_loop this [] result = Inr result"
| "desc_loop this (arg # args) result =
     (case arg of
        Null \<Rightarrow> desc_loop this args result
      | Undefined \<Rightarrow> desc_loop this args result
      | Str s \<Rightarrow> desc_loop this args (result @ [Text s])
      | Obj node \<Rightarrow>
          (case mapping this (ctor node) of
             None \<Rightarrow>
               if isASTNode node then
                 (case printed node of
                    Inl e \<Rightarrow> Inl e
                  | Inr p \<Rightarrow> Inl (Error (lit ''Unable to find writer for AST arg: '' @ p)))
               else
                 (case JSON_stringify (data node) of
                    Inl e \<Rightarrow> Inl e
                  | Inr r \<Rightarrow>
                      Inl (Error (lit ''Expected an instance of ASTNode but got following: ''
                                    @ appended r)))
           | Some writer \<Rightarrow>
               (case writeWhole writer node of
                  Inl e \<Rightarrow> Inl e
                | Inr whole \<Rightarrow> desc_loop this args (result @ whole))))"

definition desc :: "ASTWriter \<Rightarrow> DescArg list \<Rightarrow> error + SrcDesc" where
  "desc this args = desc_loop this args []"

text \<open>
  \<^verbatim>\<open>ASTWriter.write\<close> returns the text or the error, and the map as the call leaves it. The
  default argument \<^verbatim>\<open>new Map()\<close> is \<open>Map.empty\<close>.
\<close>

definition ast_write :: "ASTWriter \<Rightarrow> ASTNode \<Rightarrow> SrcRangeMap \<Rightarrow> (error + jsstring) \<times> SrcRangeMap" where
  \<comment> \<open>\<^verbatim>\<open>ASTWriter.write\<close>\<close>
  "ast_write this node sourceMap0 =
     (case desc this [Obj node] of
        Inl e \<Rightarrow> (Inl e, sourceMap0)
      | Inr d \<Rightarrow> (case descToSourceString d sourceMap0 of (src, m) \<Rightarrow> (Inr src, m)))"


section \<open>The Yul writer\<close>

text \<open>
  A \<^verbatim>\<open>YulNode\<close> is plain data with a string tag \<^verbatim>\<open>nodeType\<close> among its properties:
  \<open>earlier\<close> are the properties enumerated before \<^verbatim>\<open>nodeType\<close>, \<open>later\<close> those after
  it. A \<^verbatim>\<open>YulNodeWriter\<close> is modelled by the outcome of its \<^verbatim>\<open>write(node, writer)\<close>.
\<close>

record YulNode =
  nodeType :: jsstring
  earlier :: "(jsstring \<times> jsdata) list"
  later :: "(jsstring \<times> jsdata) list"






section \<open>Notions used to state the properties\<close>

text \<open>The text of a description: its fragments, in order.\<close>

fun plain :: "SrcDesc \<Rightarrow> jsstring" and plain_elem :: "SrcElem \<Rightarrow> jsstring" where
  "plain [] = []"
| "plain (element # rest) = plain_elem element @ plain rest"
| "plain_elem (Text element) = element"
| "plain_elem (Assoc node nodeDesc) = plain nodeDesc"

fun fragments :: "SrcDesc \<Rightarrow> jsstring list"
  and fragments_elem :: "SrcElem \<Rightarrow> jsstring list" where
  "fragments [] = []"
| "fragments (element # rest) = fragments_elem element @ fragments rest"
| "fragments_elem (Text element) = [element]"
| "fragments_elem (Assoc node nodeDesc) = fragments nodeDesc"

text \<open>
  A surrogate pair is split where a text ends with a high surrogate and the fragment
  that comes next begins with a low one. \<open>unsplit\<close> says that this happens nowhere in
  a sequence of fragments. A sequence of well-formed strings is unsplit, as is one in
  which no fragment begins with a low surrogate.
\<close>

definition joins_pair :: "jsstring \<Rightarrow> jsstring \<Rightarrow> bool" where
  "joins_pair before next \<longleftrightarrow>
     before \<noteq> [] \<and> next \<noteq> [] \<and> is_high (last before) \<and> is_low (hd next)"

fun unsplit_after :: "jsstring \<Rightarrow> jsstring list \<Rightarrow> bool" where
  "unsplit_after before [] = True"
| "unsplit_after before (next # rest) =
     (\<not> joins_pair before next \<and> unsplit_after (before @ next) rest)"

definition unsplit :: "jsstring list \<Rightarrow> bool" where
  "unsplit fs = unsplit_after [] fs"

fun well_formed :: "jsstring \<Rightarrow> bool" where
  \<comment> \<open>every surrogate of the string is part of a pair\<close>
  "well_formed [] = True"
| "well_formed [u] = (\<not> is_high u \<and> \<not> is_low u)"
| "well_formed (u # v # rest) =
     (if is_high u \<and> is_low v then well_formed rest
      else \<not> is_high u \<and> \<not> is_low u \<and> well_formed (v # rest))"

text \<open>The nodes of the association entries of a description, at every depth.\<close>

fun nodes :: "SrcDesc \<Rightarrow> ASTNode set" and nodes_elem :: "SrcElem \<Rightarrow> ASTNode set" where
  "nodes [] = {}"
| "nodes (element # rest) = nodes_elem element \<union> nodes rest"
| "nodes_elem (Text element) = {}"
| "nodes_elem (Assoc node nodeDesc) = insert node (nodes nodeDesc)"

text \<open>
  The position of an element in a description is the path of indices that leads to
  it: \<open>[i]\<close> is element \<open>i\<close> of the sequence, \<open>i # p\<close> is position \<open>p\<close> in the nested
  description of the association entry at index \<open>i\<close>.
\<close>

fun entry_at :: "SrcDesc \<Rightarrow> nat list \<Rightarrow> SrcElem option" where
  "entry_at d [] = None"
| "entry_at d [i] = (if i < length d then Some (d ! i) else None)"
| "entry_at d (i # p) =
     (if i < length d then
        (case d ! i of Text element \<Rightarrow> None | Assoc node nodeDesc \<Rightarrow> entry_at nodeDesc p)
      else None)"

text \<open>
  The calls \<^verbatim>\<open>sourceMap.set(node, [start, length])\<close> that \<open>helper\<close> makes on a
  sequence whose first element has index \<open>i\<close>, started in state \<open>st\<close>: in the order
  of the calls, each with the position of the entry that makes it and the values the
  code computes (\<open>start\<close> is the size on reaching the entry, \<open>length\<close> is the size
  after its nested description less \<open>start\<close>).
\<close>

type_synonym set_call = "nat list \<times> ASTNode \<times> nat \<times> nat"

fun recorded :: "nat \<Rightarrow> SrcDesc \<Rightarrow> flat_state \<Rightarrow> set_call list" where
  "recorded i [] st = []"
| "recorded i (Text element # rest) st =
     recorded (Suc i) rest (helper_elem (Text element) st)"
| "recorded i (Assoc node nodeDesc # rest) st =
     map (\<lambda>(p, r). (i # p, r)) (recorded 0 nodeDesc st)
     @ [([i], node, size' st, size' (helper nodeDesc st) - size' st)]
     @ recorded (Suc i) rest (helper_elem (Assoc node nodeDesc) st)"

definition set_call :: "set_call \<Rightarrow> SrcRangeMap \<Rightarrow> SrcRangeMap" where
  \<comment> \<open>the effect of one call on the map\<close>
  "set_call c m = (case c of (p, node, rng) \<Rightarrow> m(node \<mapsto> rng))"

text \<open>Nodes and values of the examples.\<close>

definition nodeX :: ASTNode where
  "nodeX = \<lparr>ref = 1, ctor = ''BinaryOperation'', isASTNode = True,
            printed = Inr (lit ''BinaryOperation #1''), data = JObject []\<rparr>"

definition nodeA :: ASTNode where
  "nodeA = \<lparr>ref = 2, ctor = ''Identifier'', isASTNode = True,
            printed = Inr (lit ''Identifier #2''), data = JObject []\<rparr>"

definition nodeB :: ASTNode where
  "nodeB = \<lparr>ref = 3, ctor = ''Identifier'', isASTNode = True,
            printed = Inr (lit ''Identifier #3''), data = JObject []\<rparr>"

definition exampleDesc :: SrcDesc where
  \<comment> \<open>\<^verbatim>\<open>[ [X, [ [A, ["foo"]], " + ", [B, ["bar"]] ]] ]\<close>\<close>
  "exampleDesc =
     [Assoc nodeX [Assoc nodeA [Text (lit ''foo'')], Text (lit '' + ''),
                   Assoc nodeB [Text (lit ''bar'')]]]"


text \<open>
  A registry for the examples: a writer for identifiers that inherits
  \<^verbatim>\<open>writeWhole\<close>, a writer for unary operations that fails on its operand (for
  which it finds no writer), and no writer for \<^verbatim>\<open>BinaryOperation\<close>. Then values
  that are not nodes (\<^verbatim>\<open>{ a: 1 }\<close> and the BigInt \<^verbatim>\<open>10n\<close>), a Yul registry with no
  writer, a Yul node, and a Yul node with a statement that refers back to it.
\<close>

definition identifierWriter :: ASTNodeWriter where
  "identifierWriter =
     \<lparr>writeInner = (\<lambda>node. Inr [Text (lit ''foo'')]), writeWholeOverride = None\<rparr>"

definition unaryWriter :: ASTNodeWriter where
  "unaryWriter =
     \<lparr>writeInner =
        (\<lambda>node. Inl (Error (lit ''Unable to find writer for AST arg: '' @ lit ''Literal #6''))),
      writeWholeOverride = None\<rparr>"


definition exampleWriter :: ASTWriter where
  "exampleWriter =
     \<lparr>mapping = [''Identifier'' \<mapsto> identifierWriter, ''UnaryOperation'' \<mapsto> unaryWriter],
      targetCompilerVersion = lit ''0.8.0''\<rparr>"







definition exampleYulDump :: jsstring where
  "exampleYulDump =
     lit ''{'' @ [0x0A]
     @ lit ''    '' @ [0x22] @ lit ''nodeType'' @ [0x22] @ lit '': '' @ [0x22] @ lit ''YulLeave''
     @ [0x22] @ lit '','' @ [0x0A]
     @ lit ''    '' @ [0x22] @ lit ''src'' @ [0x22] @ lit '': '' @ [0x22] @ lit ''0:5:0'' @ [0x22]
     @ [0x0A] @ lit ''}''"

section \<open>Properties of the encoding\<close>

lemma joins_pair_Nil [simp]: "\<not> joins_pair [] b" "\<not> joins_pair a []"
  by (simp_all add: joins_pair_def)







lemma strByteLen_Nil: "strByteLen [] = 0"
  by (simp add: strByteLen_def encode_def)









lemma helper_source:
  "source (helper d st) = source st @ plain d"
  "source (helper_elem e st) = source st @ plain_elem e"
  by (induction d st and e st rule: helper_helper_elem.induct) (simp_all add: Let_def)

lemma helper_size:
  "size' (helper d st) = size' st + sum_list (map strByteLen (fragments d))"
  "size' (helper_elem e st) = size' st + sum_list (map strByteLen (fragments_elem e))"
  by (induction d st and e st rule: helper_helper_elem.induct)
     (simp_all add: Let_def)

lemma helper_size_mono: "size' st \<le> size' (helper d st)"
  by (simp add: helper_size)


section \<open>Properties of the flattening loop\<close>

lemma helper_frame:
  "n \<notin> nodes d \<Longrightarrow> sourceMap (helper d st) n = sourceMap st n"
  "n \<notin> nodes_elem e \<Longrightarrow> sourceMap (helper_elem e st) n = sourceMap st n"
  by (induction d st and e st rule: helper_helper_elem.induct) (simp_all add: Let_def)

lemma set_call_simp: "set_call (p, node, rng) m = m(node \<mapsto> rng)"
  by (simp add: set_call_def)

lemma set_call_under: "set_call (i # p, r) = set_call (p, r)"
  by (cases r) (simp add: set_call_def fun_eq_iff)

lemma fold_set_call_under:
  "fold set_call (map (\<lambda>(p, r). (i # p, r)) cs) m = fold set_call cs m"
  by (induction cs arbitrary: m) (auto simp add: set_call_under)

lemma helper_elem_Assoc_sourceMap:
  "sourceMap (helper_elem (Assoc node nodeDesc) st) =
     (sourceMap (helper nodeDesc st))(node \<mapsto> (size' st, size' (helper nodeDesc st) - size' st))"
  by (simp add: Let_def)

lemma helper_sourceMap_recorded:
  "sourceMap (helper d st) = fold set_call (recorded i d st) (sourceMap st)"
proof (induction i d st rule: recorded.induct)
  case (1 i st)
  show ?case by simp
next
  case (2 i element rest st)
  then show ?case by simp
next
  case (3 i node nodeDesc rest st)
  let ?st1 = "helper_elem (Assoc node nodeDesc) st"
  have "sourceMap (helper (Assoc node nodeDesc # rest) st) = sourceMap (helper rest ?st1)"
    by simp
  also have "\<dots> = fold set_call (recorded (Suc i) rest ?st1) (sourceMap ?st1)"
    by (rule 3(2))
  also have "sourceMap ?st1 =
      set_call ([i], node, size' st, size' (helper nodeDesc st) - size' st)
        (fold set_call (recorded 0 nodeDesc st) (sourceMap st))"
    unfolding helper_elem_Assoc_sourceMap set_call_simp 3(1) [symmetric] ..
  finally show ?case
    by (simp only: recorded.simps fold_append fold_set_call_under fold_simps comp_apply)
qed

lemma recorded_bounds:
  "(p, n, s, l) \<in> set (recorded i d st) \<Longrightarrow>
     size' st \<le> s \<and> s + l \<le> size' st + sum_list (map strByteLen (fragments d))"
proof (induction i d st arbitrary: p rule: recorded.induct)
  case (1 i st)
  then show ?case by simp
next
  case (2 i element rest st)
  then have "size' (helper_elem (Text element) st) \<le> s \<and>
     s + l \<le> size' (helper_elem (Text element) st) + sum_list (map strByteLen (fragments rest))"
    by simp
  then show ?case by simp
next
  case (3 i node nodeDesc rest st)
  from 3(3) consider
      (nested) q where "(q, n, s, l) \<in> set (recorded 0 nodeDesc st)"
    | (here) "s = size' st" "l = size' (helper nodeDesc st) - size' st"
    | (later) "(p, n, s, l) \<in> set (recorded (Suc i) rest (helper_elem (Assoc node nodeDesc) st))"
    by auto
  then show ?case
  proof cases
    case nested
    then have "size' st \<le> s \<and> s + l \<le> size' st + sum_list (map strByteLen (fragments nodeDesc))"
      by (rule 3(1))
    then show ?thesis by simp
  next
    case here
    then show ?thesis by (simp add: helper_size)
  next
    case later
    then have "size' (helper_elem (Assoc node nodeDesc) st) \<le> s \<and>
       s + l \<le> size' (helper_elem (Assoc node nodeDesc) st) + sum_list (map strByteLen (fragments rest))"
      by (rule 3(2))
    then show ?thesis unfolding helper_size by simp
  qed
qed

lemma entry_at_Cons_Suc: "entry_at (x # d) (Suc j # q) = entry_at d (j # q)"
  by (cases q) simp_all

lemma entry_at_Assoc_0:
  "entry_at (Assoc node nodeDesc # rest) (0 # j # q) = entry_at nodeDesc (j # q)"
  by simp

lemma recorded_Text_mem:
  "(p, c) \<in> set (recorded i (Text element # rest) st) \<longleftrightarrow>
     (p, c) \<in> set (recorded (Suc i) rest (helper_elem (Text element) st))"
  by simp

lemma recorded_Assoc_mem:
  "(p, n, s, l) \<in> set (recorded i (Assoc node nodeDesc # rest) st) \<longleftrightarrow>
     (\<exists>q. p = i # q \<and> (q, n, s, l) \<in> set (recorded 0 nodeDesc st))
     \<or> (p = [i] \<and> n = node \<and> s = size' st \<and> l = sum_list (map strByteLen (fragments nodeDesc)))
     \<or> (p, n, s, l) \<in> set (recorded (Suc i) rest (helper_elem (Assoc node nodeDesc) st))"
  by (auto simp add: helper_size)

lemma recorded_path:
  "(p, c) \<in> set (recorded i d st) \<Longrightarrow> p \<noteq> [] \<and> i \<le> hd p"
proof (induction i d st arbitrary: p rule: recorded.induct)
  case (1 i st)
  then show ?case by simp
next
  case (2 i element rest st)
  then have "p \<noteq> [] \<and> Suc i \<le> hd p" by simp
  then show ?case by simp
next
  case (3 i node nodeDesc rest st)
  obtain n s l where c: "c = (n, s, l)" by (cases c)
  from 3(3) consider
      (nested) q where "p = i # q"
    | (here) "p = [i]"
    | (later) "(p, c) \<in> set (recorded (Suc i) rest (helper_elem (Assoc node nodeDesc) st))"
    unfolding c recorded_Assoc_mem by blast
  then show ?case
  proof cases
    case nested
    then show ?thesis by simp
  next
    case here
    then show ?thesis by simp
  next
    case later
    then have "p \<noteq> [] \<and> Suc i \<le> hd p" by (rule 3(2))
    then show ?thesis by simp
  qed
qed

lemma entry_at_Nil: "entry_at [] p = None"
  by (cases "([] :: SrcDesc, p)" rule: entry_at.cases) simp_all

lemma entry_at_Text_0: "entry_at (Text element # rest) (0 # q) \<noteq> Some (Assoc n dn)"
  by (cases q) simp_all

lemma entry_at_Assoc_here:
  "entry_at (Assoc node nodeDesc # rest) [0] = Some (Assoc n dn) \<longleftrightarrow> n = node \<and> dn = nodeDesc"
  by auto

lemma recorded_complete:
  "entry_at d (j # q) = Some (Assoc n dn) \<Longrightarrow>
     \<exists>s l. ((i + j) # q, n, s, l) \<in> set (recorded i d st)"
proof (induction i d st arbitrary: j q rule: recorded.induct)
  case (1 i st)
  then show ?case by (simp add: entry_at_Nil)
next
  case (2 i element rest st)
  show ?case
  proof (cases j)
    case 0
    with 2(2) show ?thesis by (simp add: entry_at_Text_0)
  next
    case (Suc j')
    with 2(2) have "entry_at rest (j' # q) = Some (Assoc n dn)"
      by (simp only: entry_at_Cons_Suc)
    from 2(1) [OF this] obtain s l where
      "((Suc i + j') # q, n, s, l) \<in> set (recorded (Suc i) rest (helper_elem (Text element) st))"
      by blast
    then have "((i + j) # q, n, s, l) \<in> set (recorded i (Text element # rest) st)"
      using Suc by simp
    then show ?thesis by blast
  qed
next
  case (3 i node nodeDesc rest st)
  show ?case
  proof (cases j)
    case 0
    show ?thesis
    proof (cases q)
      case Nil
      with 0 3(3) have "n = node" by simp
      then have "((i + j) # q, n, size' st, sum_list (map strByteLen (fragments nodeDesc)))
          \<in> set (recorded i (Assoc node nodeDesc # rest) st)"
        unfolding recorded_Assoc_mem using 0 Nil by simp
      then show ?thesis by blast
    next
      case (Cons j' q')
      with 0 3(3) have "entry_at nodeDesc (j' # q') = Some (Assoc n dn)" by simp
      from 3(1) [OF this] obtain s l where
        "((0 + j') # q', n, s, l) \<in> set (recorded 0 nodeDesc st)"
        by blast
      then have "((i + j) # q, n, s, l) \<in> set (recorded i (Assoc node nodeDesc # rest) st)"
        unfolding recorded_Assoc_mem using 0 Cons by simp
      then show ?thesis by blast
    qed
  next
    case (Suc j')
    with 3(3) have "entry_at rest (j' # q) = Some (Assoc n dn)"
      by (simp only: entry_at_Cons_Suc)
    from 3(2) [OF this] obtain s l where
      "((Suc i + j') # q, n, s, l)
         \<in> set (recorded (Suc i) rest (helper_elem (Assoc node nodeDesc) st))"
      by blast
    then have "((i + j) # q, n, s, l) \<in> set (recorded i (Assoc node nodeDesc # rest) st)"
      unfolding recorded_Assoc_mem using Suc by simp
    then show ?thesis by blast
  qed
qed

lemma recorded_contained:
  "(p1, n1, s1, l1) \<in> set (recorded i d st) \<Longrightarrow>
   (p1 @ r, n2, s2, l2) \<in> set (recorded i d st) \<Longrightarrow> r \<noteq> [] \<Longrightarrow>
     s1 \<le> s2 \<and> s2 + l2 \<le> s1 + l1"
proof (induction i d st arbitrary: p1 r rule: recorded.induct)
  case (1 i st)
  then show ?case by simp
next
  case (2 i element rest st)
  from 2(2,3,4) show ?case unfolding recorded_Text_mem by (rule 2(1))
next
  case (3 i node nodeDesc rest st)
  let ?st1 = "helper_elem (Assoc node nodeDesc) st"
  from 3(3) consider
      (nested) q1 where "p1 = i # q1" "(q1, n1, s1, l1) \<in> set (recorded 0 nodeDesc st)"
    | (here) "p1 = [i]" "s1 = size' st" "l1 = sum_list (map strByteLen (fragments nodeDesc))"
    | (later) "(p1, n1, s1, l1) \<in> set (recorded (Suc i) rest ?st1)"
    unfolding recorded_Assoc_mem by blast
  then show ?case
  proof cases
    case nested
    from 3(4) consider
        (nested2) q2 where "p1 @ r = i # q2" "(q2, n2, s2, l2) \<in> set (recorded 0 nodeDesc st)"
      | (here2) "p1 @ r = [i]"
      | (later2) "(p1 @ r, n2, s2, l2) \<in> set (recorded (Suc i) rest ?st1)"
      unfolding recorded_Assoc_mem by blast
    then show ?thesis
    proof cases
      case nested2
      then have "(q1 @ r, n2, s2, l2) \<in> set (recorded 0 nodeDesc st)"
        using nested(1) by simp
      with nested(2) show ?thesis using 3(5) by (rule 3(1))
    next
      case here2
      then show ?thesis using nested(1) 3(5) by simp
    next
      case later2
      from recorded_path [OF this] show ?thesis using nested(1) by simp
    qed
  next
    case here
    from 3(4) consider
        (nested2) q2 where "(q2, n2, s2, l2) \<in> set (recorded 0 nodeDesc st)"
      | (here2) "p1 @ r = [i]"
      | (later2) "(p1 @ r, n2, s2, l2) \<in> set (recorded (Suc i) rest ?st1)"
      unfolding recorded_Assoc_mem by blast
    then show ?thesis
    proof cases
      case nested2
      from recorded_bounds [OF this] show ?thesis using here(2,3) by simp
    next
      case here2
      then show ?thesis using here(1) 3(5) by simp
    next
      case later2
      from recorded_path [OF this] show ?thesis using here(1) by simp
    qed
  next
    case later
    from recorded_path [OF later] have p1: "p1 \<noteq> []" "Suc i \<le> hd p1" by simp_all
    then have hd2: "hd (p1 @ r) = hd p1" by simp
    from 3(4) consider
        (nested2) q2 where "p1 @ r = i # q2"
      | (here2) "p1 @ r = [i]"
      | (later2) "(p1 @ r, n2, s2, l2) \<in> set (recorded (Suc i) rest ?st1)"
      unfolding recorded_Assoc_mem by blast
    then show ?thesis
    proof cases
      case nested2
      then show ?thesis using hd2 p1(2) by simp
    next
      case here2
      then show ?thesis using hd2 p1(2) by simp
    next
      case later2
      with later show ?thesis using 3(5) by (rule 3(2))
    qed
  qed
qed

lemma recorded_siblings:
  "(q @ [a], n1, s1, l1) \<in> set (recorded i d st) \<Longrightarrow>
   (q @ [b], n2, s2, l2) \<in> set (recorded i d st) \<Longrightarrow> a < b \<Longrightarrow>
     s1 + l1 \<le> s2"
proof (induction i d st arbitrary: q rule: recorded.induct)
  case (1 i st)
  then show ?case by simp
next
  case (2 i element rest st)
  from 2(2,3,4) show ?case unfolding recorded_Text_mem by (rule 2(1))
next
  case (3 i node nodeDesc rest st)
  let ?st1 = "helper_elem (Assoc node nodeDesc) st"
  have sz: "size' ?st1 = size' st + sum_list (map strByteLen (fragments nodeDesc))"
    unfolding helper_size by simp
  have hds: "q \<noteq> [] \<Longrightarrow> hd (q @ [a]) = hd (q @ [b])" by simp
  from 3(3) consider
      (nested) q1 where "q @ [a] = i # q1" "(q1, n1, s1, l1) \<in> set (recorded 0 nodeDesc st)"
    | (here) "q @ [a] = [i]" "s1 = size' st" "l1 = sum_list (map strByteLen (fragments nodeDesc))"
    | (later) "(q @ [a], n1, s1, l1) \<in> set (recorded (Suc i) rest ?st1)"
    unfolding recorded_Assoc_mem by blast
  then show ?case
  proof cases
    case nested
    from recorded_path [OF nested(2)] have "q1 \<noteq> []" by simp
    with nested(1) obtain q' where q: "q = i # q'" "q1 = q' @ [a]"
      by (cases q) auto
    from 3(4) consider
        (nested2) q2 where "q @ [b] = i # q2" "(q2, n2, s2, l2) \<in> set (recorded 0 nodeDesc st)"
      | (here2) "q @ [b] = [i]"
      | (later2) "(q @ [b], n2, s2, l2) \<in> set (recorded (Suc i) rest ?st1)"
      unfolding recorded_Assoc_mem by blast
    then show ?thesis
    proof cases
      case nested2
      then have "(q' @ [b], n2, s2, l2) \<in> set (recorded 0 nodeDesc st)"
        using q(1) by simp
      moreover have "(q' @ [a], n1, s1, l1) \<in> set (recorded 0 nodeDesc st)"
        using nested(2) q(2) by simp
      ultimately show ?thesis using 3(5) 3(1) by blast
    next
      case here2
      then show ?thesis using q(1) by simp
    next
      case later2
      from recorded_path [OF this] show ?thesis using q(1) by simp
    qed
  next
    case here
    then have qa: "q = []" "a = i" by simp_all
    from 3(4) consider
        (nested2) q2 where "q @ [b] = i # q2"
      | (here2) "q @ [b] = [i]"
      | (later2) "(q @ [b], n2, s2, l2) \<in> set (recorded (Suc i) rest ?st1)"
      unfolding recorded_Assoc_mem by blast
    then show ?thesis
    proof cases
      case nested2
      then show ?thesis using qa 3(5) by simp
    next
      case here2
      then show ?thesis using qa 3(5) by simp
    next
      case later2
      from recorded_bounds [OF this] show ?thesis unfolding sz using here(2,3) by simp
    qed
  next
    case later
    from recorded_path [OF later] have hd1: "Suc i \<le> hd (q @ [a])" by simp
    have hd2: "Suc i \<le> hd (q @ [b])"
    proof (cases q)
      case Nil
      then show ?thesis using hd1 3(5) by simp
    next
      case (Cons x xs)
      then show ?thesis using hd1 by simp
    qed
    from 3(4) consider
        (nested2) q2 where "q @ [b] = i # q2"
      | (here2) "q @ [b] = [i]"
      | (later2) "(q @ [b], n2, s2, l2) \<in> set (recorded (Suc i) rest ?st1)"
      unfolding recorded_Assoc_mem by blast
    then show ?thesis
    proof cases
      case nested2
      then show ?thesis using hd2 by simp
    next
      case here2
      then show ?thesis using hd2 by simp
    next
      case later2
      with later show ?thesis using 3(5) by (rule 3(2))
    qed
  qed
qed

lemma recorded_distinct: "distinct (map fst (recorded i d st))"
proof (induction i d st rule: recorded.induct)
  case (1 i st)
  show ?case by simp
next
  case (2 i element rest st)
  then show ?case by simp
next
  case (3 i node nodeDesc rest st)
  let ?st1 = "helper_elem (Assoc node nodeDesc) st"
  let ?R0 = "recorded 0 nodeDesc st"
  let ?R1 = "recorded (Suc i) rest ?st1"
  have m: "map fst (map (\<lambda>(p, r). (i # p, r)) ?R0) = map ((#) i) (map fst ?R0)"
    by (simp add: case_prod_beta comp_def)
  have d0: "distinct (map ((#) i) (map fst ?R0))"
    using 3(1) by (subst distinct_map) (simp add: inj_on_def)
  have a: "[i] \<notin> set (map ((#) i) (map fst ?R0))"
    using recorded_path [of _ _ 0 nodeDesc st] by fastforce
  have b: "[i] \<notin> set (map fst ?R1)"
    using recorded_path [of "[i]" _ "Suc i" rest ?st1] by fastforce
  have c: "set (map ((#) i) (map fst ?R0)) \<inter> set (map fst ?R1) = {}"
  proof -
    have "False" if "p \<in> set (map ((#) i) (map fst ?R0))" "p \<in> set (map fst ?R1)" for p
    proof -
      from that(1) have "hd p = i" by auto
      moreover from that(2) obtain c where "(p, c) \<in> set ?R1" by auto
      from recorded_path [OF this] have "Suc i \<le> hd p" by simp
      ultimately show False by simp
    qed
    then show ?thesis by blast
  qed
  define A where "A = map ((#) i) (map fst ?R0)"
  define B where "B = map fst ?R1"
  have eq: "map fst (recorded i (Assoc node nodeDesc # rest) st) = A @ [i] # B"
    unfolding recorded.simps map_append m A_def B_def by simp
  have "distinct A" "distinct B" "[i] \<notin> set A" "[i] \<notin> set B" "set A \<inter> set B = {}"
    using d0 a b c 3(2) unfolding A_def B_def by blast+
  then show ?case unfolding eq by auto
qed

lemma descToSourceString_eq:
  "descToSourceString d m0 = (plain d, fold set_call (recorded 0 d (initial m0)) m0)"
  unfolding descToSourceString_def Let_def helper_source helper_sourceMap_recorded [of d _ 0]
  by (simp add: initial_def)

lemma recorded_size_only:
  "size' st = size' st2 \<Longrightarrow> recorded i d st = recorded i d st2"
proof (induction i d st arbitrary: st2 rule: recorded.induct)
  case (1 i st)
  show ?case by simp
next
  case (2 i element rest st)
  have "size' (helper_elem (Text element) st) = size' (helper_elem (Text element) st2)"
    unfolding helper_size using 2(2) by simp
  from 2(1) [OF this] show ?case by simp
next
  case (3 i node nodeDesc rest st)
  let ?e = "Assoc node nodeDesc"
  have a: "size' (helper_elem ?e st) = size' (helper_elem ?e st2)"
    unfolding helper_size using 3(3) by simp
  have b: "size' (helper nodeDesc st) = size' (helper nodeDesc st2)"
    unfolding helper_size using 3(3) by simp
  show ?case
    unfolding recorded.simps 3(1) [OF 3(3)] 3(2) [OF a] b 3(3) ..
qed

lemma fold_set_call_map_add:
  "fold set_call R (a ++ b) = a ++ fold set_call R b"
proof (induction R arbitrary: b)
  case Nil
  show ?case by simp
next
  case (Cons c R)
  obtain p n r where c: "c = (p, n, r)" by (cases c)
  have "set_call c (a ++ b) = a ++ set_call c b"
    unfolding c set_call_simp by simp
  then show ?case using Cons by simp
qed

lemma fold_set_call_other:
  "\<forall>p r. (p, n, r) \<notin> set R \<Longrightarrow> fold set_call R m n = m n"
proof (induction R arbitrary: m)
  case Nil
  show ?case by simp
next
  case (Cons c R)
  obtain p n' r where c: "c = (p, n', r)" by (cases c)
  have "n' \<noteq> n" using Cons(2) c by (metis list.set_intros(1))
  then have "set_call c m n = m n" unfolding c set_call_simp by simp
  moreover have "fold set_call R (set_call c m) n = set_call c m n"
    using Cons by simp
  ultimately show ?case by simp
qed

lemma fold_set_call_Some:
  "(p0, n, r0) \<in> set R \<Longrightarrow> \<exists>p r. (p, n, r) \<in> set R \<and> fold set_call R m n = Some r"
proof (induction R arbitrary: m p0 r0 rule: rev_induct)
  case Nil
  then show ?case by simp
next
  case (snoc c R)
  obtain p n' r where c: "c = (p, n', r)" by (cases c)
  show ?case
  proof (cases "n' = n")
    case True
    then have "fold set_call (R @ [c]) m n = Some r" unfolding c by (simp add: set_call_simp)
    moreover have "(p, n, r) \<in> set (R @ [c])" using True c by simp
    ultimately show ?thesis by blast
  next
    case False
    then have "(p0, n, r0) \<in> set R" using snoc(2) c by auto
    from snoc(1) [OF this] obtain p1 r1 where
      "(p1, n, r1) \<in> set R" "fold set_call R m n = Some r1" by blast
    moreover have "fold set_call (R @ [c]) m n = fold set_call R m n"
      using False unfolding c by (simp add: set_call_simp)
    ultimately have "(p1, n, r1) \<in> set (R @ [c]) \<and> fold set_call (R @ [c]) m n = Some r1"
      by simp
    then show ?thesis by blast
  qed
qed

lemma nodes_recorded:
  "n \<in> nodes d \<longleftrightarrow> (\<exists>p s l. (p, n, s, l) \<in> set (recorded i d st))"
proof (induction i d st rule: recorded.induct)
  case (1 i st)
  show ?case by simp
next
  case (2 i element rest st)
  then show ?case by simp
next
  case (3 i node nodeDesc rest st)
  have "n \<in> nodes (Assoc node nodeDesc # rest) \<longleftrightarrow>
      n \<in> nodes nodeDesc \<or> n = node \<or> n \<in> nodes rest"
    by auto
  then show ?case unfolding recorded_Assoc_mem 3 by blast
qed

lemma entry_at_append:
  "entry_at d p = Some (Assoc n nodeDesc) \<Longrightarrow> r \<noteq> [] \<Longrightarrow>
     entry_at d (p @ r) = entry_at nodeDesc r"
proof (induction d p rule: entry_at.induct)
  case (1 d)
  then show ?case by simp
next
  case (2 d i)
  then obtain j r' where "r = j # r'" by (cases r) auto
  with 2 show ?case by (auto split: if_splits)
next
  case (3 d i v va)
  then show ?case by (auto split: if_splits SrcElem.splits)
qed

lemma recorded_entry:
  "(p, n, s, l) \<in> set (recorded i d st) \<Longrightarrow>
     \<exists>j q dn fs hs. p = (i + j) # q \<and> entry_at d (j # q) = Some (Assoc n dn)
       \<and> fragments d = fs @ fragments dn @ hs
       \<and> s = size' st + sum_list (map strByteLen fs)
       \<and> l = sum_list (map strByteLen (fragments dn))"
proof (induction i d st arbitrary: p rule: recorded.induct)
  case (1 i st)
  then show ?case by simp
next
  case (2 i element rest st)
  let ?st1 = "helper_elem (Text element) st"
  from 2(2) have mem: "(p, n, s, l) \<in> set (recorded (Suc i) rest ?st1)"
    by simp
  from 2(1) [OF mem] obtain j q dn fs hs where
    ih: "p = (Suc i + j) # q" "entry_at rest (j # q) = Some (Assoc n dn)"
      "fragments rest = fs @ fragments dn @ hs"
      "s = size' ?st1 + sum_list (map strByteLen fs)"
      "l = sum_list (map strByteLen (fragments dn))"
    by blast
  have "p = (i + Suc j) # q" using ih(1) by simp
  moreover have "entry_at (Text element # rest) (Suc j # q) = Some (Assoc n dn)"
    using ih(2) by (simp only: entry_at_Cons_Suc)
  moreover have "fragments (Text element # rest) = (element # fs) @ fragments dn @ hs"
    using ih(3) by simp
  moreover have "s = size' st + sum_list (map strByteLen (element # fs))"
    using ih(4) by simp
  ultimately show ?case using ih(5) by blast
next
  case (3 i node nodeDesc rest st)
  let ?st1 = "helper_elem (Assoc node nodeDesc) st"
  from 3(3) consider
      (nested) q where "p = i # q" "(q, n, s, l) \<in> set (recorded 0 nodeDesc st)"
    | (here) "p = [i]" "n = node" "s = size' st"
        "l = sum_list (map strByteLen (fragments nodeDesc))"
    | (later) "(p, n, s, l) \<in> set (recorded (Suc i) rest ?st1)"
    unfolding recorded_Assoc_mem by blast
  then show ?case
  proof cases
    case nested
    from 3(1) [OF nested(2)] obtain j q' dn fs hs where
      ih: "q = (0 + j) # q'" "entry_at nodeDesc (j # q') = Some (Assoc n dn)"
        "fragments nodeDesc = fs @ fragments dn @ hs"
        "s = size' st + sum_list (map strByteLen fs)"
        "l = sum_list (map strByteLen (fragments dn))"
      by blast
    have "p = (i + 0) # (j # q')" using nested(1) ih(1) by simp
    moreover have "entry_at (Assoc node nodeDesc # rest) (0 # j # q') = Some (Assoc n dn)"
      using ih(2) by simp
    moreover have "fragments (Assoc node nodeDesc # rest) =
        fs @ fragments dn @ (hs @ fragments rest)"
      using ih(3) by simp
    ultimately show ?thesis using ih(4,5) by blast
  next
    case here
    have "p = (i + 0) # []" using here(1) by simp
    moreover have "entry_at (Assoc node nodeDesc # rest) (0 # []) = Some (Assoc n nodeDesc)"
      using here(2) by simp
    moreover have "fragments (Assoc node nodeDesc # rest) =
        [] @ fragments nodeDesc @ fragments rest"
      by simp
    moreover have "s = size' st + sum_list (map strByteLen [])"
      using here(3) by simp
    ultimately show ?thesis using here(4) by blast
  next
    case later
    from 3(2) [OF later] obtain j q dn fs hs where
      ih: "p = (Suc i + j) # q" "entry_at rest (j # q) = Some (Assoc n dn)"
        "fragments rest = fs @ fragments dn @ hs"
        "s = size' ?st1 + sum_list (map strByteLen fs)"
        "l = sum_list (map strByteLen (fragments dn))"
      by blast
    have "p = (i + Suc j) # q" using ih(1) by simp
    moreover have "entry_at (Assoc node nodeDesc # rest) (Suc j # q) = Some (Assoc n dn)"
      using ih(2) by (simp only: entry_at_Cons_Suc)
    moreover have "fragments (Assoc node nodeDesc # rest) =
        (fragments nodeDesc @ fs) @ fragments dn @ hs"
      using ih(3) by simp
    moreover have "s = size' st + sum_list (map strByteLen (fragments nodeDesc @ fs))"
      using ih(4) unfolding helper_size by simp
    ultimately show ?thesis using ih(5) by blast
  qed
qed

lemma recorded_initial: "recorded i d (initial m0) = recorded i d (initial Map.empty)"
  by (rule recorded_size_only) (simp add: initial_def)

lemma descToSourceString_fst: "fst (descToSourceString d m0) = plain d"
  by (simp add: descToSourceString_eq)

lemma descToSourceString_snd:
  "snd (descToSourceString d m0) = fold set_call (recorded 0 d (initial m0)) m0"
  by (simp add: descToSourceString_eq)



lemma descToSourceString_map_add:
  "snd (descToSourceString d m0) = m0 ++ snd (descToSourceString d Map.empty)"
proof -
  have "fold set_call (recorded 0 d (initial Map.empty)) (m0 ++ Map.empty) =
      m0 ++ fold set_call (recorded 0 d (initial Map.empty)) Map.empty"
    by (rule fold_set_call_map_add)
  then show ?thesis
    unfolding descToSourceString_snd recorded_initial [of 0 d m0] by simp
qed

lemma descToSourceString_frame:
  "n \<notin> nodes d \<Longrightarrow> snd (descToSourceString d m0) n = m0 n"
  unfolding descToSourceString_def Let_def by (simp add: helper_frame initial_def)

lemma descToSourceString_mapped:
  assumes "n \<in> nodes d"
  shows "\<exists>p start len. (p, n, start, len) \<in> set (recorded 0 d (initial m0))
     \<and> snd (descToSourceString d m0) n = Some (start, len)"
proof -
  from assms obtain p0 s0 l0 where "(p0, n, s0, l0) \<in> set (recorded 0 d (initial m0))"
    unfolding nodes_recorded [of n d 0 "initial m0"] by blast
  from fold_set_call_Some [OF this, of m0] obtain p r where
    "(p, n, r) \<in> set (recorded 0 d (initial m0))"
    "fold set_call (recorded 0 d (initial m0)) m0 n = Some r"
    by blast
  then show ?thesis unfolding descToSourceString_snd by (cases r) auto
qed

lemma descToSourceString_dom:
  "dom (snd (descToSourceString d Map.empty)) = nodes d"
proof
  show "dom (snd (descToSourceString d Map.empty)) \<subseteq> nodes d"
  proof
    fix n
    assume "n \<in> dom (snd (descToSourceString d Map.empty))"
    then have mapped: "snd (descToSourceString d Map.empty) n \<noteq> None"
      by (simp add: domIff)
    show "n \<in> nodes d"
    proof (rule ccontr)
      assume "n \<notin> nodes d"
      then have "snd (descToSourceString d Map.empty) n = Map.empty n"
        by (rule descToSourceString_frame)
      with mapped show False by simp
    qed
  qed
  show "nodes d \<subseteq> dom (snd (descToSourceString d Map.empty))"
    using descToSourceString_mapped [of _ d Map.empty] by blast
qed

lemma entry_recorded:
  assumes "entry_at d p = Some (Assoc n nodeDesc)"
  shows "\<exists>start len. (p, n, start, len) \<in> set (recorded 0 d st)"
proof (cases p)
  case Nil
  with assms show ?thesis by simp
next
  case (Cons j q)
  with assms have "entry_at d (j # q) = Some (Assoc n nodeDesc)" by simp
  from recorded_complete [OF this, of 0 st] show ?thesis using Cons by simp
qed

lemma fold_set_call_distinct:
  assumes "distinct (map (fst \<circ> snd) R)" and "(p, n, r) \<in> set R"
  shows "fold set_call R m0 n = Some r"
proof -
  from fold_set_call_Some [OF assms(2), of m0] obtain p' r' where
    mem: "(p', n, r') \<in> set R" and val: "fold set_call R m0 n = Some r'"
    by blast
  from assms(1) have "inj_on (fst \<circ> snd) (set R)" by (simp add: distinct_map)
  from inj_onD [OF this _ mem assms(2)] have "(p', n, r') = (p, n, r)" by simp
  with val show ?thesis by simp
qed


lemma lit_append: "lit (a @ b) = lit a @ lit b"
  by (simp add: lit_def)

lemma example_nodes_distinct: "distinct [nodeX, nodeA, nodeB]"
  by (simp add: nodeX_def nodeA_def nodeB_def)

lemma recorded_is_entry:
  assumes "(p, n, start, len) \<in> set (recorded 0 d st)"
  shows "\<exists>nodeDesc. entry_at d p = Some (Assoc n nodeDesc)"
proof -
  from recorded_entry [OF assms] obtain j q dn where
    "p = (0 + j) # q" "entry_at d (j # q) = Some (Assoc n dn)" by blast
  then show ?thesis by simp
qed

lemma codepoints_ascii: "\<forall>u \<in> set s. u < 0x80 \<Longrightarrow> codepoints s = s"
  by (induction s rule: codepoints.induct) (simp_all add: scalar_def is_high_def is_low_def)

lemma encode_ascii: "\<forall>u \<in> set s. u < 0x80 \<Longrightarrow> encode s = map of_nat s"
  unfolding encode_def by (simp add: codepoints_ascii) (induction s, simp_all add: utf8_def)

lemma strByteLen_ascii: "\<forall>u \<in> set s. u < 0x80 \<Longrightarrow> strByteLen s = length s"
  by (simp add: strByteLen_def encode_ascii)

lemma strByteLen_foo: "strByteLen (lit ''foo'') = 3"
  by (subst strByteLen_ascii) (simp_all add: lit_def)

lemma strByteLen_plus: "strByteLen (lit '' + '') = 3"
  by (subst strByteLen_ascii) (simp_all add: lit_def)

lemma strByteLen_bar: "strByteLen (lit ''bar'') = 3"
  by (subst strByteLen_ascii) (simp_all add: lit_def)

lemma example_flattened:
  "descToSourceString
     [Assoc X [Assoc A [Text (lit ''foo'')], Text (lit '' + ''), Assoc B [Text (lit ''bar'')]]]
     Map.empty
   = (lit ''foo + bar'', [A \<mapsto> (0, 3), B \<mapsto> (6, 3), X \<mapsto> (0, 9)])"
proof -
  have "lit ''foo + bar'' = lit ''foo'' @ lit '' + '' @ lit ''bar''"
    by (simp add: lit_def)
  then show ?thesis
    by (simp add: descToSourceString_def initial_def Let_def
        strByteLen_foo strByteLen_plus strByteLen_bar)
qed

lemma example_recorded:
  "recorded 0 exampleDesc (initial m0) =
     [([0, 0], nodeA, 0, 3), ([0, 2], nodeB, 6, 3), ([0], nodeX, 0, 9)]"
  unfolding exampleDesc_def
  by (simp add: initial_def helper_size strByteLen_foo strByteLen_plus strByteLen_bar)

lemma example_descToSourceString:
  "descToSourceString exampleDesc Map.empty =
     (lit ''foo + bar'', [nodeA \<mapsto> (0, 3), nodeB \<mapsto> (6, 3), nodeX \<mapsto> (0, 9)])"
  unfolding exampleDesc_def by (rule example_flattened)











section \<open>The flattening: the properties claimed\<close>

lemma well_formed_hd: "well_formed f \<Longrightarrow> f \<noteq> [] \<Longrightarrow> \<not> is_low (hd f)"
  by (induction f rule: well_formed.induct) (auto simp add: is_high_def is_low_def split: if_splits)

lemma no_low_start_unsplit_after:
  "\<forall>f \<in> set fs. f \<noteq> [] \<longrightarrow> \<not> is_low (hd f) \<Longrightarrow> unsplit_after before fs"
  by (induction fs arbitrary: before) (auto simp add: joins_pair_def)

lemma well_formed_unsplit: "\<forall>f \<in> set fs. well_formed f \<Longrightarrow> unsplit fs"
  unfolding unsplit_def using well_formed_hd by (intro no_low_start_unsplit_after) blast




text \<open>
  Claim C2. The ranges recorded while flattening a description form a tree of the
  shape of its association entries. The map is the outcome of the recorded calls, in
  order; each association entry makes exactly one call, and no call comes from
  anything else. The range of an entry nested, at any depth, in another entry (its
  position extends the position of the other) lies within the range of the other.
  Of two association entries of the same sequence the earlier one ends before the
  later one begins. Where no node labels two entries, these are the ranges the map
  holds.
\<close>

theorem ranges_form_tree:
  defines "R \<equiv> \<lambda>d m0. recorded 0 d (initial m0)"
  shows "snd (descToSourceString d m0) = fold set_call (R d m0) m0
    \<and> distinct (map fst (R d m0))
    \<and> (\<forall>p n. (\<exists>start len. (p, n, start, len) \<in> set (R d m0)) \<longleftrightarrow>
               (\<exists>nodeDesc. entry_at d p = Some (Assoc n nodeDesc)))
    \<and> (\<forall>(p, n, start, len) \<in> set (R d m0). \<forall>(p', n', start', len') \<in> set (R d m0).
          strict_prefix p p' \<longrightarrow> start \<le> start' \<and> start' + len' \<le> start + len)
    \<and> (\<forall>(p, n, start, len) \<in> set (R d m0). \<forall>(p', n', start', len') \<in> set (R d m0).
          \<forall>q a b. p = q @ [a] \<and> p' = q @ [b] \<and> a < b \<longrightarrow> start + len \<le> start')
    \<and> (distinct (map (fst \<circ> snd) (R d m0)) \<longrightarrow>
          (\<forall>(p, n, start, len) \<in> set (R d m0).
             snd (descToSourceString d m0) n = Some (start, len)))"
proof -
  have a: "snd (descToSourceString d m0) = fold set_call (R d m0) m0"
    unfolding R_def by (rule descToSourceString_snd)
  have b: "distinct (map fst (R d m0))"
    unfolding R_def by (rule recorded_distinct)
  have c: "\<forall>p n. (\<exists>start len. (p, n, start, len) \<in> set (R d m0)) \<longleftrightarrow>
               (\<exists>nodeDesc. entry_at d p = Some (Assoc n nodeDesc))"
    unfolding R_def using recorded_is_entry entry_recorded by blast
  have e: "start \<le> start' \<and> start' + len' \<le> start + len"
    if "(p, n, start, len) \<in> set (R d m0)" "(p', n', start', len') \<in> set (R d m0)"
      "strict_prefix p p'" for p n start len p' n' start' len'
  proof -
    from that(3) obtain r where r: "p' = p @ r" "r \<noteq> []"
      by (auto simp add: strict_prefix_def prefix_def)
    from that(1,2) show ?thesis unfolding R_def r(1) using r(2) by (rule recorded_contained)
  qed
  have f: "start + len \<le> start'"
    if "(p, n, start, len) \<in> set (R d m0)" "(p', n', start', len') \<in> set (R d m0)"
      "p = q @ [a] \<and> p' = q @ [b] \<and> a < b" for p n start len p' n' start' len' q a b
    using that recorded_siblings [of q a n start len 0 d "initial m0" b n' start' len']
    unfolding R_def by blast
  have g: "snd (descToSourceString d m0) n = Some (start, len)"
    if "distinct (map (fst \<circ> snd) (R d m0))" "(p, n, start, len) \<in> set (R d m0)"
    for p n start len
    unfolding a using that by (rule fold_set_call_distinct)
  have e': "\<forall>(p, n, start, len) \<in> set (R d m0). \<forall>(p', n', start', len') \<in> set (R d m0).
          strict_prefix p p' \<longrightarrow> start \<le> start' \<and> start' + len' \<le> start + len"
    using e by blast
  have f': "\<forall>(p, n, start, len) \<in> set (R d m0). \<forall>(p', n', start', len') \<in> set (R d m0).
          \<forall>q a b. p = q @ [a] \<and> p' = q @ [b] \<and> a < b \<longrightarrow> start + len \<le> start'"
    using f by blast
  have g': "distinct (map (fst \<circ> snd) (R d m0)) \<longrightarrow>
          (\<forall>(p, n, start, len) \<in> set (R d m0).
             snd (descToSourceString d m0) n = Some (start, len))"
    using g by blast
  from a b c e' f' g' show ?thesis by blast
qed

theorem ranges_form_tree_witness:
  "([0], nodeX, 0, 9) \<in> set (recorded 0 exampleDesc (initial Map.empty))
   \<and> ([0, 0], nodeA, 0, 3) \<in> set (recorded 0 exampleDesc (initial Map.empty))
   \<and> ([0, 2], nodeB, 6, 3) \<in> set (recorded 0 exampleDesc (initial Map.empty))
   \<and> strict_prefix [0] [0, 2 :: nat]
   \<and> (0 :: nat) \<le> 6 \<and> (6 :: nat) + 3 \<le> 0 + 9
   \<and> (0 :: nat) + 3 \<le> 6
   \<and> distinct (map (fst \<circ> snd) (recorded 0 exampleDesc (initial Map.empty)))
   \<and> snd (descToSourceString exampleDesc Map.empty) nodeB = Some (6, 3)"
proof -
  have x: "([0], nodeX, 0, 9) \<in> set (recorded 0 exampleDesc (initial Map.empty))"
    and a: "([0, 0], nodeA, 0, 3) \<in> set (recorded 0 exampleDesc (initial Map.empty))"
    and b: "([0, 2], nodeB, 6, 3) \<in> set (recorded 0 exampleDesc (initial Map.empty))"
    by (simp_all add: example_recorded)
  have sp: "strict_prefix [0] [0, 2 :: nat]" by simp
  have dn: "distinct (map (fst \<circ> snd) (recorded 0 exampleDesc (initial Map.empty)))"
    using example_nodes_distinct by (auto simp add: example_recorded)
  note T = ranges_form_tree [of exampleDesc Map.empty]
  note cont = T [THEN conjunct2, THEN conjunct2, THEN conjunct2, THEN conjunct1]
  note sibl = T [THEN conjunct2, THEN conjunct2, THEN conjunct2, THEN conjunct2, THEN conjunct1]
  note last = T [THEN conjunct2, THEN conjunct2, THEN conjunct2, THEN conjunct2, THEN conjunct2]
  note c0 = bspec [OF bspec [OF cont x, unfolded prod.case] b, unfolded prod.case]
  from c0 [THEN mp, OF sp]
  have c: "(0 :: nat) \<le> 6 \<and> (6 :: nat) + 3 \<le> 0 + 9" by simp
  have sib: "[0, 0] = [0] @ [0 :: nat] \<and> [0, 2] = [0] @ [2 :: nat] \<and> (0 :: nat) < 2" by simp
  note s0 = bspec [OF bspec [OF sibl a, unfolded prod.case] b, unfolded prod.case]
  from s0 [THEN spec, THEN spec, THEN spec, THEN mp, OF sib]
  have s: "(0 :: nat) + 3 \<le> 6" by simp
  from bspec [OF last [THEN mp, OF dn] b, unfolded prod.case]
  have m: "snd (descToSourceString exampleDesc Map.empty) nodeB = Some (6, 3)" by simp
  from x a b sp c s dn m show ?thesis by simp
qed

text \<open>
  Claim C3. Flattening \<^verbatim>\<open>[ [X, [ [A, ["foo"]], " + ", [B, ["bar"]] ]] ]\<close> with an empty
  source map returns the text \<^verbatim>\<open>"foo + bar"\<close> and leaves the map with exactly
  \<open>A \<mapsto> (0, 3)\<close>, \<open>B \<mapsto> (6, 3)\<close> and \<open>X \<mapsto> (0, 9)\<close>, for three different nodes.
\<close>

theorem end_to_end_example:
  assumes "distinct [X, A, B]"
  defines "d \<equiv> [Assoc X [Assoc A [Text (lit ''foo'')], Text (lit '' + ''),
                            Assoc B [Text (lit ''bar'')]]]"
  shows "fst (descToSourceString d Map.empty) = lit ''foo + bar''
    \<and> snd (descToSourceString d Map.empty) = [A \<mapsto> (0, 3), B \<mapsto> (6, 3), X \<mapsto> (0, 9)]
    \<and> dom (snd (descToSourceString d Map.empty)) = {A, B, X}
    \<and> snd (descToSourceString d Map.empty) A = Some (0, 3)
    \<and> snd (descToSourceString d Map.empty) B = Some (6, 3)
    \<and> snd (descToSourceString d Map.empty) X = Some (0, 9)"
  unfolding d_def example_flattened using assms(1) by auto

theorem end_to_end_example_witness:
  "distinct [nodeX, nodeA, nodeB]
   \<and> fst (descToSourceString exampleDesc Map.empty) = lit ''foo + bar''
   \<and> snd (descToSourceString exampleDesc Map.empty) nodeA = Some (0, 3)
   \<and> snd (descToSourceString exampleDesc Map.empty) nodeB = Some (6, 3)
   \<and> snd (descToSourceString exampleDesc Map.empty) nodeX = Some (0, 9)"
proof -
  have h: "distinct [nodeX, nodeA, nodeB]"
    by (simp add: nodeX_def nodeA_def nodeB_def)
  show ?thesis
    using h end_to_end_example [OF h] unfolding exampleDesc_def by auto
qed




text \<open>
  Claim C10. Whatever the map holds when it is passed to \<^verbatim>\<open>descToSourceString\<close> (or
  to \<^verbatim>\<open>write\<close>), the text returned is the text returned for a fresh map, and the map
  is left as the passed one overridden by the entries a fresh map would get, which are
  the entries for the nodes of the association entries of the description. An entry
  whose node is none of these is unchanged. A \<^verbatim>\<open>write\<close> that fails leaves the map as
  it was.
\<close>

theorem flattening_frame:
  "fst (descToSourceString d m0) = fst (descToSourceString d Map.empty)
   \<and> snd (descToSourceString d m0) = m0 ++ snd (descToSourceString d Map.empty)
   \<and> dom (snd (descToSourceString d Map.empty)) = nodes d
   \<and> (\<forall>n. n \<notin> nodes d \<longrightarrow> snd (descToSourceString d m0) n = m0 n)
   \<and> fst (ast_write w x m0) = fst (ast_write w x Map.empty)
   \<and> (\<forall>e. desc w [Obj x] = Inl e \<longrightarrow> snd (ast_write w x m0) = m0)
   \<and> (\<forall>dx. desc w [Obj x] = Inr dx \<longrightarrow>
        (\<forall>n. n \<notin> nodes dx \<longrightarrow> snd (ast_write w x m0) n = m0 n))"
proof -
  have a: "fst (descToSourceString d m0) = fst (descToSourceString d Map.empty)" for d m0
    by (simp only: descToSourceString_fst)
  have b: "\<forall>n. n \<notin> nodes d \<longrightarrow> snd (descToSourceString d m0) n = m0 n" for d
    by (simp add: descToSourceString_frame)
  have c: "fst (ast_write w x m0) = fst (ast_write w x Map.empty)"
    unfolding ast_write_def using a
    by (simp split: sum.splits prod.splits) (metis fst_conv)
  have e: "\<forall>e. desc w [Obj x] = Inl e \<longrightarrow> snd (ast_write w x m0) = m0"
    by (simp add: ast_write_def)
  have f: "\<forall>dx. desc w [Obj x] = Inr dx \<longrightarrow>
        (\<forall>n. n \<notin> nodes dx \<longrightarrow> snd (ast_write w x m0) n = m0 n)"
    unfolding ast_write_def using b
    by (simp split: prod.splits) (metis snd_conv)
  show ?thesis
    using a [of d m0] descToSourceString_map_add [of d m0] descToSourceString_dom [of d] b [of d] c e f
    by blast
qed

theorem flattening_frame_witness:
  "nodeB \<notin> nodes [Assoc nodeA [Text (lit ''foo'')]]
   \<and> snd (descToSourceString [Assoc nodeA [Text (lit ''foo'')]] [nodeB \<mapsto> (7, 7)]) nodeB
       = Some (7, 7)
   \<and> desc exampleWriter [Obj nodeX] =
       Inl (Error (lit ''Unable to find writer for AST arg: '' @ lit ''BinaryOperation #1''))
   \<and> snd (ast_write exampleWriter nodeX [nodeB \<mapsto> (7, 7)]) = [nodeB \<mapsto> (7, 7)]
   \<and> desc exampleWriter [Obj nodeA] = Inr [Assoc nodeA [Text (lit ''foo'')]]
   \<and> snd (ast_write exampleWriter nodeA [nodeB \<mapsto> (7, 7)]) nodeB = Some (7, 7)"
proof -
  note F = flattening_frame [of "[Assoc nodeA [Text (lit ''foo'')]]" "[nodeB \<mapsto> (7, 7)]"
      exampleWriter nodeX]
  note G = flattening_frame [of "[Assoc nodeA [Text (lit ''foo'')]]" "[nodeB \<mapsto> (7, 7)]"
      exampleWriter nodeA]
  have n: "nodeB \<notin> nodes [Assoc nodeA [Text (lit ''foo'')]]"
    by (simp add: nodeA_def nodeB_def)
  have e: "desc exampleWriter [Obj nodeX] =
       Inl (Error (lit ''Unable to find writer for AST arg: '' @ lit ''BinaryOperation #1''))"
    by (simp add: desc_def exampleWriter_def nodeX_def)
  have r: "desc exampleWriter [Obj nodeA] = Inr [Assoc nodeA [Text (lit ''foo'')]]"
    by (simp add: desc_def exampleWriter_def nodeA_def writeWhole_def identifierWriter_def)
  note F4 = F [THEN conjunct2, THEN conjunct2, THEN conjunct2, THEN conjunct1]
  note F6 = F [THEN conjunct2, THEN conjunct2, THEN conjunct2, THEN conjunct2, THEN conjunct2,
      THEN conjunct1]
  note G7 = G [THEN conjunct2, THEN conjunct2, THEN conjunct2, THEN conjunct2, THEN conjunct2,
      THEN conjunct2]
  from F4 [THEN spec, THEN mp, OF n]
  have a: "snd (descToSourceString [Assoc nodeA [Text (lit ''foo'')]] [nodeB \<mapsto> (7, 7)]) nodeB
       = Some (7, 7)" by simp
  from F6 [THEN spec, THEN mp, OF e]
  have b: "snd (ast_write exampleWriter nodeX [nodeB \<mapsto> (7, 7)]) = [nodeB \<mapsto> (7, 7)]" .
  from G7 [THEN spec, THEN mp, OF r, THEN spec, THEN mp, OF n]
  have c: "snd (ast_write exampleWriter nodeA [nodeB \<mapsto> (7, 7)]) nodeB = Some (7, 7)" by simp
  from n a e b r c show ?thesis by simp
qed

section \<open>Properties of the runs\<close>

inductive_cases helper_run_NilE: "helper_run a [] s s'"
inductive_cases helper_run_TextE: "helper_run a (Text element # rest) s s'"
inductive_cases helper_run_AssocE: "helper_run a (Assoc node nodeDesc # rest) s s'"

lemma helper_run_deterministic:
  "helper_run a d s s1 \<Longrightarrow> helper_run a d s s2 \<Longrightarrow> s1 = s2"
proof (induction arbitrary: s2 rule: helper_run.induct)
  case (finished s)
  then show ?case by (auto elim: helper_run_NilE)
next
  case (fragment rest src element sz h s')
  from fragment(3) have "helper_run a rest (src @ element, sz + strByteLen element, h) s2"
    by (auto elim: helper_run_TextE)
  then show ?case by (rule fragment(2))
next
  case (entry nodeDesc src start h src1 sz1 h1 m rest node s')
  from entry(6) obtain src1' sz1' h1' m' where
    nested: "helper_run a nodeDesc (src, start, h) (src1', sz1', h1')"
    and cell: "h1' a = Some m'"
    and later: "helper_run a rest
        (src1', sz1', h1'(a \<mapsto> m'(node \<mapsto> (start, sz1' - start)))) s2"
    by (auto elim: helper_run_AssocE)
  from entry(4) [OF nested] have eq: "src1' = src1" "sz1' = sz1" "h1' = h1" by simp_all
  with cell entry(2) have "m' = m" by simp
  with later eq have "helper_run a rest
        (src1, sz1, h1(a \<mapsto> m(node \<mapsto> (start, sz1 - start)))) s2"
    by simp
  then show ?case by (rule entry(5))
qed

lemma state_induct:
  assumes "\<And>st. P [] st"
    and "\<And>element rest st. P rest (helper_elem (Text element) st) \<Longrightarrow> P (Text element # rest) st"
    and "\<And>node nodeDesc rest st.
           P nodeDesc st \<Longrightarrow> P rest (helper_elem (Assoc node nodeDesc) st) \<Longrightarrow>
           P (Assoc node nodeDesc # rest) st"
  shows "P d st"
  using recorded.induct [of "\<lambda>i. P" 0 d st] assms by blast

lemma helper_run_helper:
  "h a = Some (sourceMap st) \<Longrightarrow>
     helper_run a d (source st, size' st, h)
       (source (helper d st), size' (helper d st), h(a \<mapsto> sourceMap (helper d st)))"
proof (induction d st arbitrary: h rule: state_induct)
  case (1 st)
  then have "h(a \<mapsto> sourceMap st) = h" by (simp add: fun_upd_idem)
  then show ?case by (simp add: helper_run.finished)
next
  case (2 element rest st)
  let ?st1 = "helper_elem (Text element) st"
  from 2(2) have "h a = Some (sourceMap ?st1)" by simp
  from 2(1) [of h, OF this]
  have "helper_run a rest (source st @ element, size' st + strByteLen element, h)
       (source (helper rest ?st1), size' (helper rest ?st1),
        h(a \<mapsto> sourceMap (helper rest ?st1)))"
    by (simp add: fun_upd_def)
  then have "helper_run a (Text element # rest) (source st, size' st, h)
       (source (helper rest ?st1), size' (helper rest ?st1),
        h(a \<mapsto> sourceMap (helper rest ?st1)))"
    by (rule helper_run.fragment)
  then show ?case by (simp add: fun_upd_def)
next
  case (3 node nodeDesc rest st)
  let ?st1 = "helper nodeDesc st"
  let ?st2 = "helper_elem (Assoc node nodeDesc) st"
  let ?h1 = "h(a \<mapsto> sourceMap ?st1)"
  have st2: "source ?st2 = source ?st1" "size' ?st2 = size' ?st1"
    "sourceMap ?st2 = (sourceMap ?st1)(node \<mapsto> (size' st, size' ?st1 - size' st))"
    by (simp_all add: Let_def)
  have nested: "helper_run a nodeDesc (source st, size' st, h)
      (source ?st1, size' ?st1, ?h1)"
    using 3(1) [of h, OF 3(3)] by (simp add: fun_upd_def)
  have cell: "?h1 a = Some (sourceMap ?st1)" by simp
  let ?h2 = "?h1(a \<mapsto> (sourceMap ?st1)(node \<mapsto> (size' st, size' ?st1 - size' st)))"
  have "?h2 a = Some (sourceMap ?st2)" unfolding st2 by simp
  from 3(2) [of ?h2, OF this]
  have later: "helper_run a rest (source ?st1, size' ?st1, ?h2)
      (source (helper rest ?st2), size' (helper rest ?st2),
       ?h2(a \<mapsto> sourceMap (helper rest ?st2)))"
    unfolding st2 by (simp add: fun_upd_def)
  have "?h2(a \<mapsto> sourceMap (helper rest ?st2)) = h(a \<mapsto> sourceMap (helper rest ?st2))"
    by simp
  with helper_run.entry [OF nested cell later]
  show ?case by (simp add: fun_upd_def)
qed

lemma descToSourceString_run_result:
  assumes "h a = Some m"
  shows "descToSourceString_run h d a
           (fst (descToSourceString d m), h(a \<mapsto> snd (descToSourceString d m)))"
proof -
  have "h a = Some (sourceMap (initial m))" using assms by (simp add: initial_def)
  from helper_run_helper [where h = h and a = a and st = "initial m" and d = d, OF this]
  have "helper_run a d ([], 0, h)
      (source (helper d (initial m)), size' (helper d (initial m)),
       h(a \<mapsto> sourceMap (helper d (initial m))))"
    by (simp add: initial_def)
  then show ?thesis
    unfolding descToSourceString_def Let_def fst_conv snd_conv
    by (rule descToSourceString_run.call)
qed

lemma descToSourceString_run_deterministic:
  assumes "descToSourceString_run h d a r" and "descToSourceString_run h d a r'"
  shows "r = r'"
proof -
  from assms(1) obtain src sz h1 where
    r: "r = (src, h1)" and run: "helper_run a d ([], 0, h) (src, sz, h1)"
    by (auto elim: descToSourceString_run.cases)
  from assms(2) obtain src' sz' h1' where
    r': "r' = (src', h1')" and run': "helper_run a d ([], 0, h) (src', sz', h1')"
    by (auto elim: descToSourceString_run.cases)
  from helper_run_deterministic [OF run run'] r r' show ?thesis by simp
qed

lemma descToSourceString_run_is:
  assumes "descToSourceString_run h d a (src, h')" and "h a = Some m"
  shows "src = fst (descToSourceString d m) \<and> h' = h(a \<mapsto> snd (descToSourceString d m))"
proof -
  from descToSourceString_run_result [where h = h and a = a and m = m and d = d, OF assms(2)]
  have "descToSourceString_run h d a
           (fst (descToSourceString d m), h(a \<mapsto> snd (descToSourceString d m)))"
    by simp
  from descToSourceString_run_deterministic [OF assms(1) this] show ?thesis by simp
qed

text \<open>
  Claim C9. \<^verbatim>\<open>descToSourceString\<close> is deterministic: a run on a given heap, description
  and map has at most one outcome, and it has one whenever the address it is given
  is that of a map. The outcome depends on the input only: flattening one
  description twice, each time into a fresh empty map and whatever else the heap
  holds, returns the same text both times and leaves the two maps with the same
  entries; the second run leaves the map of the first run, and every other map, as
  it was. The outcome of a run is the one that the function \<open>descToSourceString\<close>
  computes.
\<close>

theorem deterministic_flattening:
  "(descToSourceString_run h d a r \<and> descToSourceString_run h d a r' \<longrightarrow> r = r')
   \<and> (a \<in> dom h \<longrightarrow> (\<exists>r. descToSourceString_run h d a r))
   \<and> (a1 \<notin> dom h0 \<and> descToSourceString_run (h0(a1 \<mapsto> Map.empty)) d a1 (src1, h1)
        \<and> a2 \<notin> dom h1 \<and> descToSourceString_run (h1(a2 \<mapsto> Map.empty)) d a2 (src2, h2) \<longrightarrow>
        src1 = src2 \<and> h2 a1 = h2 a2 \<and> h2 a1 = h1 a1
        \<and> (\<forall>b. b \<noteq> a1 \<and> b \<noteq> a2 \<longrightarrow> h2 b = h0 b))
   \<and> (h a = Some m \<longrightarrow>
        descToSourceString_run h d a
          (fst (descToSourceString d m), h(a \<mapsto> snd (descToSourceString d m))))"
proof -
  have a: "r = r'" if "descToSourceString_run h d a r \<and> descToSourceString_run h d a r'"
    using that descToSourceString_run_deterministic by blast
  have b: "\<exists>r. descToSourceString_run h d a r" if "a \<in> dom h"
  proof -
    from that obtain m where "h a = Some m" by blast
    from descToSourceString_run_result [where h = h and a = a and m = m and d = d, OF this]
    show ?thesis by blast
  qed
  have c: "src1 = src2 \<and> h2 a1 = h2 a2 \<and> h2 a1 = h1 a1
        \<and> (\<forall>b. b \<noteq> a1 \<and> b \<noteq> a2 \<longrightarrow> h2 b = h0 b)"
    if "a1 \<notin> dom h0 \<and> descToSourceString_run (h0(a1 \<mapsto> Map.empty)) d a1 (src1, h1)
        \<and> a2 \<notin> dom h1 \<and> descToSourceString_run (h1(a2 \<mapsto> Map.empty)) d a2 (src2, h2)"
  proof -
    from that have run1: "descToSourceString_run (h0(a1 \<mapsto> Map.empty)) d a1 (src1, h1)"
      and fresh2: "a2 \<notin> dom h1"
      and run2: "descToSourceString_run (h1(a2 \<mapsto> Map.empty)) d a2 (src2, h2)"
      by simp_all
    let ?M = "snd (descToSourceString d Map.empty)"
    from descToSourceString_run_is [OF run1, where m = Map.empty]
    have 1: "src1 = fst (descToSourceString d Map.empty)" "h1 = h0(a1 \<mapsto> ?M)"
      by simp_all
    from descToSourceString_run_is [OF run2, where m = Map.empty]
    have 2: "src2 = fst (descToSourceString d Map.empty)" "h2 = h1(a2 \<mapsto> ?M)"
      by simp_all
    from fresh2 1(2) have "a2 \<noteq> a1" by auto
    with 1 2 show ?thesis by simp
  qed
  have e: "descToSourceString_run h d a
          (fst (descToSourceString d m), h(a \<mapsto> snd (descToSourceString d m)))"
    if "h a = Some m"
    using descToSourceString_run_result [where h = h and a = a and m = m and d = d, OF that] .
  from a b c e show ?thesis by blast
qed

theorem deterministic_flattening_witness:
  "(0::nat) \<notin> dom (Map.empty :: heap)
   \<and> descToSourceString_run [0 \<mapsto> Map.empty] exampleDesc 0
       (lit ''foo + bar'', [0 \<mapsto> [nodeA \<mapsto> (0, 3), nodeB \<mapsto> (6, 3), nodeX \<mapsto> (0, 9)]])
   \<and> (1::nat) \<notin> dom [(0::nat) \<mapsto> [nodeA \<mapsto> (0, 3), nodeB \<mapsto> (6, 3), nodeX \<mapsto> (0::nat, 9::nat)]]
   \<and> descToSourceString_run
       [0 \<mapsto> [nodeA \<mapsto> (0, 3), nodeB \<mapsto> (6, 3), nodeX \<mapsto> (0, 9)], 1 \<mapsto> Map.empty]
       exampleDesc 1
       (lit ''foo + bar'',
        [0 \<mapsto> [nodeA \<mapsto> (0, 3), nodeB \<mapsto> (6, 3), nodeX \<mapsto> (0, 9)],
         1 \<mapsto> [nodeA \<mapsto> (0, 3), nodeB \<mapsto> (6, 3), nodeX \<mapsto> (0, 9)]])
   \<and> (\<exists>r. descToSourceString_run [0 \<mapsto> Map.empty] exampleDesc 0 r)"
proof -
  let ?M = "[nodeA \<mapsto> (0, 3), nodeB \<mapsto> (6, 3), nodeX \<mapsto> (0::nat, 9::nat)]"
  let ?h1 = "[(0::nat) \<mapsto> ?M]"
  let ?h2 = "[(0::nat) \<mapsto> ?M, 1 \<mapsto> ?M]"
  have c1: "[(0::nat) \<mapsto> (Map.empty :: SrcRangeMap)] 0 = Some Map.empty" by simp
  have c2: "(?h1(1 \<mapsto> Map.empty)) 1 = Some Map.empty" by simp
  note R1 = deterministic_flattening [where d = exampleDesc and h = "[0 \<mapsto> Map.empty]"
      and a = 0 and m = Map.empty, THEN conjunct2, THEN conjunct2, THEN conjunct2, THEN mp,
      OF c1]
  note R2 = deterministic_flattening [where d = exampleDesc and h = "?h1(1 \<mapsto> Map.empty)"
      and a = 1 and m = Map.empty, THEN conjunct2, THEN conjunct2, THEN conjunct2, THEN mp,
      OF c2]
  from R1 have run1: "descToSourceString_run [0 \<mapsto> Map.empty] exampleDesc 0 (lit ''foo + bar'', ?h1)"
    unfolding example_descToSourceString by simp
  from R2 have run2: "descToSourceString_run (?h1(1 \<mapsto> Map.empty)) exampleDesc 1
      (lit ''foo + bar'', ?h2)"
    unfolding example_descToSourceString by simp
  have f1: "(0::nat) \<notin> dom (Map.empty :: heap)" by simp
  have f2: "(1::nat) \<notin> dom ?h1" by simp
  have d: "(0::nat) \<in> dom [(0::nat) \<mapsto> (Map.empty :: SrcRangeMap)]" by simp
  note E = deterministic_flattening [where d = exampleDesc and h = "[0 \<mapsto> Map.empty]"
      and a = 0, THEN conjunct2, THEN conjunct1, THEN mp, OF d]
  from f1 run1 f2 run2 E show ?thesis by simp
qed

section \<open>Properties of the description builder\<close>

lemma desc_loop_acc:
  "desc_loop w args acc =
     (case desc_loop w args [] of Inl e \<Rightarrow> Inl e | Inr r \<Rightarrow> Inr (acc @ r))"
proof (induction args arbitrary: acc)
  case Nil
  show ?case by simp
next
  case (Cons arg args)
  show ?case
  proof (cases arg)
    case Null
    then show ?thesis using Cons [of acc] by simp
  next
    case Undefined
    then show ?thesis using Cons [of acc] by simp
  next
    case (Str s)
    then show ?thesis
      using Cons [of "acc @ [Text s]"] Cons [of "[Text s]"]
      by (simp split: sum.splits)
  next
    case (Obj node)
    show ?thesis
    proof (cases "mapping w (ctor node)")
      case None
      with Obj show ?thesis by (simp split: sum.splits)
    next
      case (Some writer)
      show ?thesis
      proof (cases "writeWhole writer node")
        case (Inl e)
        with Obj Some show ?thesis by simp
      next
        case (Inr whole)
        with Obj Some show ?thesis
          using Cons [of "acc @ whole"] Cons [of whole]
          by (simp split: sum.splits)
      qed
    qed
  qed
qed

lemma desc_loop_append:
  "desc_loop w (xs @ ys) acc =
     (case desc_loop w xs acc of Inl e \<Rightarrow> Inl e | Inr r \<Rightarrow> desc_loop w ys r)"
proof (induction xs arbitrary: acc)
  case Nil
  show ?case by simp
next
  case (Cons arg args)
  show ?case
    by (cases arg) (simp_all add: Cons split: option.splits sum.splits)
qed

lemma desc_append:
  "desc w (xs @ ys) =
     (case desc w xs of
        Inl e \<Rightarrow> Inl e
      | Inr a \<Rightarrow> (case desc w ys of Inl e \<Rightarrow> Inl e | Inr b \<Rightarrow> Inr (a @ b)))"
proof (cases "desc_loop w xs []")
  case (Inl e)
  then show ?thesis unfolding desc_def desc_loop_append by simp
next
  case (Inr a)
  then show ?thesis unfolding desc_def desc_loop_append using desc_loop_acc [of w ys a] by simp
qed

lemma desc_Obj:
  "desc w [Obj node] =
     (case mapping w (ctor node) of
        None \<Rightarrow>
          if isASTNode node then
            (case printed node of
               Inl e \<Rightarrow> Inl e
             | Inr p \<Rightarrow> Inl (Error (lit ''Unable to find writer for AST arg: '' @ p)))
          else
            (case JSON_stringify (data node) of
               Inl e \<Rightarrow> Inl e
             | Inr r \<Rightarrow>
                 Inl (Error (lit ''Expected an instance of ASTNode but got following: ''
                               @ appended r)))
      | Some writer \<Rightarrow> writeWhole writer node)"
  by (simp add: desc_def split: option.splits sum.splits)

lemma desc_skip:
  "desc_loop w (filter (\<lambda>arg. arg \<noteq> Null \<and> arg \<noteq> Undefined) args) acc = desc_loop w args acc"
proof (induction args arbitrary: acc)
  case Nil
  show ?case by simp
next
  case (Cons arg args)
  show ?case
    by (cases arg) (simp_all add: Cons split: option.splits sum.splits)
qed

lemma desc_two_texts: "desc w [Str a, Str b] = Inr [Text a, Text b]"
  by (simp add: desc_def)

lemma lit_ab: "lit ''a'' @ lit ''b'' = lit ''ab''"
  by (simp add: lit_def)





subsection \<open>JSON\<close>








section \<open>The description builder: the properties claimed\<close>





lemma exampleYulDump_nodeType:
  "exampleYulDump =
     (lit ''{'' @ [0x0A] @ lit ''    '')
     @ (QuoteJSONString (lit ''nodeType'') @ lit '': '' @ QuoteJSONString (lit ''YulLeave''))
     @ (lit '','' @ [0x0A]
        @ lit ''    '' @ [0x22] @ lit ''src'' @ [0x22] @ lit '': '' @ [0x22] @ lit ''0:5:0'' @ [0x22]
        @ [0x0A] @ lit ''}'')"
  by (simp add: exampleYulDump_def QuoteJSONString_def escape_unit_def is_high_def is_low_def
      lit_def)

text \<open>
  Claim C5. \<^verbatim>\<open>null\<close> and \<^verbatim>\<open>undefined\<close> arguments of \<^verbatim>\<open>desc\<close> add nothing:
  \<^verbatim>\<open>desc(null, "a", undefined, "b")\<close> is \<^verbatim>\<open>desc("a", "b")\<close>, which is the description
  of the two fragments and nothing else, and flattens to \<^verbatim>\<open>"ab"\<close>. In general,
  dropping these arguments changes nothing.
\<close>

theorem skip_semantics:
  "desc w [Null, Str (lit ''a''), Undefined, Str (lit ''b'')]
     = desc w [Str (lit ''a''), Str (lit ''b'')]
   \<and> desc w [Str (lit ''a''), Str (lit ''b'')] = Inr [Text (lit ''a''), Text (lit ''b'')]
   \<and> fst (descToSourceString [Text (lit ''a''), Text (lit ''b'')] m0) = lit ''ab''
   \<and> desc w (filter (\<lambda>arg. arg \<noteq> Null \<and> arg \<noteq> Undefined) args) = desc w args"
proof -
  have a: "desc w [Null, Str (lit ''a''), Undefined, Str (lit ''b'')]
     = desc w [Str (lit ''a''), Str (lit ''b'')]"
    by (simp add: desc_def)
  have b: "fst (descToSourceString [Text (lit ''a''), Text (lit ''b'')] m0) = lit ''ab''"
    unfolding descToSourceString_fst by (simp add: lit_ab)
  have c: "desc w (filter (\<lambda>arg. arg \<noteq> Null \<and> arg \<noteq> Undefined) args) = desc w args"
    unfolding desc_def by (rule desc_skip)
  from a desc_two_texts [of w "lit ''a''" "lit ''b''"] b c show ?thesis by blast
qed

theorem skip_semantics_witness:
  "desc exampleWriter [Null, Str (lit ''a''), Undefined, Str (lit ''b'')]
     = Inr [Text (lit ''a''), Text (lit ''b'')]
   \<and> fst (descToSourceString [Text (lit ''a''), Text (lit ''b'')] Map.empty) = lit ''ab''"
  using skip_semantics [of exampleWriter Map.empty "[]"] by simp

text \<open>
  Claim C6. For an argument of \<^verbatim>\<open>desc\<close> whose constructor has a writer, the elements
  that \<^verbatim>\<open>writeWhole\<close> returns are spliced into the result at the place of the
  argument, not nested. With the inherited \<^verbatim>\<open>writeWhole\<close>, \<^verbatim>\<open>desc(a, nodeX, b)\<close> is
  the sequence of the fragment \<open>a\<close>, the one entry \<^verbatim>\<open>[nodeX, writeInner(nodeX)]\<close> and
  the fragment \<open>b\<close>.
\<close>

theorem desc_splices_writeWhole:
  assumes "mapping w (ctor x) = Some wr"
  shows "(writeWholeOverride wr = None \<and> writeInner wr x = Inr inner \<longrightarrow>
            writeWhole wr x = Inr [Assoc x inner]
            \<and> desc w [Str a, Obj x, Str b] = Inr [Text a, Assoc x inner, Text b])
    \<and> (\<forall>pre dpre post dpost whole.
          desc w pre = Inr dpre \<and> writeWhole wr x = Inr whole \<and> desc w post = Inr dpost \<longrightarrow>
            desc w (pre @ [Obj x] @ post) = Inr (dpre @ whole @ dpost))"
proof -
  have node: "desc w [Obj x] = writeWhole wr x"
    unfolding desc_Obj using assms by simp
  have a: "writeWhole wr x = Inr [Assoc x inner]
            \<and> desc w [Str a, Obj x, Str b] = Inr [Text a, Assoc x inner, Text b]"
    if "writeWholeOverride wr = None \<and> writeInner wr x = Inr inner"
  proof -
    from that have whole: "writeWhole wr x = Inr [Assoc x inner]"
      by (simp add: writeWhole_def)
    then show ?thesis using assms by (simp add: desc_def)
  qed
  have b: "desc w (pre @ [Obj x] @ post) = Inr (dpre @ whole @ dpost)"
    if "desc w pre = Inr dpre \<and> writeWhole wr x = Inr whole \<and> desc w post = Inr dpost"
    for pre dpre post dpost whole
  proof -
    have "desc w ([Obj x] @ post) = Inr (whole @ dpost)"
      unfolding desc_append [of w "[Obj x]" post] using that node by simp
    then show ?thesis
      unfolding desc_append [of w pre "[Obj x] @ post"] using that by simp
  qed
  from a b show ?thesis by blast
qed

theorem desc_splices_writeWhole_witness:
  "mapping exampleWriter (ctor nodeA) = Some identifierWriter
   \<and> writeWholeOverride identifierWriter = None
   \<and> writeInner identifierWriter nodeA = Inr [Text (lit ''foo'')]
   \<and> desc exampleWriter [Str (lit ''a''), Obj nodeA, Str (lit ''b'')]
       = Inr [Text (lit ''a''), Assoc nodeA [Text (lit ''foo'')], Text (lit ''b'')]
   \<and> desc exampleWriter [Str (lit ''a'')] = Inr [Text (lit ''a'')]
   \<and> writeWhole identifierWriter nodeA = Inr [Assoc nodeA [Text (lit ''foo'')]]
   \<and> desc exampleWriter [Str (lit ''b'')] = Inr [Text (lit ''b'')]
   \<and> desc exampleWriter ([Str (lit ''a'')] @ [Obj nodeA] @ [Str (lit ''b'')])
       = Inr ([Text (lit ''a'')] @ [Assoc nodeA [Text (lit ''foo'')]] @ [Text (lit ''b'')])"
proof -
  have h: "mapping exampleWriter (ctor nodeA) = Some identifierWriter"
    by (simp add: exampleWriter_def nodeA_def)
  have g: "writeWholeOverride identifierWriter = None
      \<and> writeInner identifierWriter nodeA = Inr [Text (lit ''foo'')]"
    by (simp add: identifierWriter_def)
  note T = desc_splices_writeWhole [OF h, of "[Text (lit ''foo'')]" "lit ''a''" "lit ''b''"]
  note A = T [THEN conjunct1, THEN mp, OF g]
  have pre: "desc exampleWriter [Str (lit ''a'')] = Inr [Text (lit ''a'')]"
    and post: "desc exampleWriter [Str (lit ''b'')] = Inr [Text (lit ''b'')]"
    by (simp_all add: desc_def)
  have k: "desc exampleWriter [Str (lit ''a'')] = Inr [Text (lit ''a'')]
      \<and> writeWhole identifierWriter nodeA = Inr [Assoc nodeA [Text (lit ''foo'')]]
      \<and> desc exampleWriter [Str (lit ''b'')] = Inr [Text (lit ''b'')]"
    using pre post A by simp
  note B = T [THEN conjunct2, THEN spec, THEN spec, THEN spec, THEN spec, THEN spec,
      THEN mp, OF k]
  from h g A k B show ?thesis by simp
qed







end
